theory Spec2Isabelle
  imports Main "HOL-Library.Word"
begin

section \<open>Strings and the node type\<close>

text \<open>
  A JavaScript string is a sequence of UTF-16 code units. \<open>js\<close> embeds an ASCII
  literal, one code unit per character.
\<close>

type_synonym jschar = "16 word"
type_synonym jsstring = "jschar list"

definition js :: "string \<Rightarrow> jsstring" where
  "js s = map (\<lambda>c. of_nat (of_char c)) s"

text \<open>
  \<open>interface MindMapNode { id: string; text: string; children: MindMapNode[];
  isExpanded?: boolean }\<close>. The optional field is \<open>None\<close> when absent. The selector of
  \<open>id\<close> is \<open>node_id\<close>, that of \<open>text\<close> is \<open>node_text\<close>.
\<close>

datatype MindMapNode =
  MindMapNode (node_id: jsstring) (node_text: jsstring)
    (children: "MindMapNode list") (isExpanded: "bool option")

definition set_children :: "MindMapNode \<Rightarrow> MindMapNode list \<Rightarrow> MindMapNode" where
  "set_children n cs = MindMapNode (node_id n) (node_text n) cs (isExpanded n)"

definition set_isExpanded :: "MindMapNode \<Rightarrow> bool option \<Rightarrow> MindMapNode" where
  "set_isExpanded n e = MindMapNode (node_id n) (node_text n) (children n) e"

text \<open>The ids of a tree, in depth-first pre-order.\<close>

fun ids :: "MindMapNode \<Rightarrow> jsstring list" where
  "ids (MindMapNode i t cs e) = i # concat (map ids cs)"

section \<open>Object references inside a cloned tree\<close>

text \<open>
  Every mutation starts from \<open>JSON.parse(JSON.stringify(prev))\<close>, a deep copy that shares
  nothing with \<open>prev\<close> and keeps all four fields, so the clone is the same value. A
  reference to a node object inside the clone is its position: the list of child indices
  that leads to it from the root. \<open>node_at\<close> dereferences a position and \<open>update_at\<close>
  applies an in-place change to the object at a position.
\<close>

fun node_at :: "MindMapNode \<Rightarrow> nat list \<Rightarrow> MindMapNode option" where
  "node_at n [] = Some n"
| "node_at n (k # p) =
     (if k < length (children n) then node_at (children n ! k) p else None)"

fun update_at :: "nat list \<Rightarrow> (MindMapNode \<Rightarrow> MindMapNode) \<Rightarrow> MindMapNode \<Rightarrow> MindMapNode" where
  "update_at [] f n = f n"
| "update_at (k # p) f n =
     (if k < length (children n)
      then set_children n ((children n)[k := update_at p f (children n ! k)])
      else n)"

text \<open>
  \<open>findNodePath(current, targetId, path)\<close> returns the array of node objects from the
  root to the first node, in depth-first pre-order, whose id is \<open>targetId\<close>, or
  \<open>null\<close>. The model returns the position \<open>pos\<close> of that node: the source's array is
  the nodes at the prefixes of \<open>pos\<close>, its length is \<open>length pos + 1\<close>, its last
  element is the node at \<open>pos\<close> and its second-to-last the node at \<open>butlast pos\<close>.
  \<open>findInChildren\<close> is the \<open>for (const child of current.children)\<close> loop, with
  the index of the child it is at.
\<close>

fun findNodePath :: "MindMapNode \<Rightarrow> jsstring \<Rightarrow> nat list option"
  and findInChildren :: "MindMapNode list \<Rightarrow> jsstring \<Rightarrow> nat \<Rightarrow> nat list option" where
  "findNodePath (MindMapNode i t cs e) targetId =
     (if i = targetId then Some [] else findInChildren cs targetId 0)"
| "findInChildren [] targetId k = None"
| "findInChildren (child # rest) targetId k =
     (case findNodePath child targetId of
        Some p \<Rightarrow> Some (k # p)
      | None \<Rightarrow> findInChildren rest targetId (Suc k))"

text \<open>\<open>Array.prototype.findIndex\<close>: the index of the first match, or \<open>-1\<close>.\<close>

fun findIndex :: "('a \<Rightarrow> bool) \<Rightarrow> 'a list \<Rightarrow> int" where
  "findIndex P [] = - 1"
| "findIndex P (x # xs) =
     (if P x then 0 else (let r = findIndex P xs in if r < 0 then - 1 else r + 1))"

text \<open>\<open>xs.splice(start, 0, x)\<close> for \<open>start \<ge> 0\<close>: a start beyond the end is the end.\<close>

definition splice_in :: "nat \<Rightarrow> 'a \<Rightarrow> 'a list \<Rightarrow> 'a list" where
  "splice_in start x xs = take start xs @ [x] @ drop start xs"

section \<open>The mutation engine (useMindMapData)\<close>

text \<open>
  Each operation is the state updater passed to \<open>setRoot\<close>/\<open>setTreeRoot\<close>: a function
  from the previous tree to the next. The value returned by \<open>uuidv4()\<close> is the
  parameter \<open>newId\<close>. Saving to localStorage does not change the tree.
\<close>

definition addSibling :: "jsstring \<Rightarrow> jsstring \<Rightarrow> MindMapNode \<Rightarrow> MindMapNode" where
  "addSibling newId referenceId prev =
     (if referenceId = node_id prev then prev
      else case findNodePath prev referenceId of
          None \<Rightarrow> prev
        | Some pos \<Rightarrow>
            if length pos + 1 \<ge> 2
            then update_at (butlast pos)
                   (\<lambda>parent.
                      let index = findIndex (\<lambda>n. node_id n = referenceId) (children parent);
                          newNode = MindMapNode newId (js ''New Node'') [] None
                      in set_children parent (splice_in (nat (index + 1)) newNode (children parent)))
                   prev
            else prev)"

definition addChild :: "jsstring \<Rightarrow> jsstring \<Rightarrow> MindMapNode \<Rightarrow> MindMapNode" where
  "addChild newId parentId prev =
     (case findNodePath prev parentId of
        None \<Rightarrow> prev
      | Some pos \<Rightarrow>
          update_at pos
            (\<lambda>target.
               let newNode = MindMapNode newId (js ''New Child'') [] None
               in set_isExpanded (set_children target (children target @ [newNode])) (Some True))
            prev)"

text \<open>
  \<open>removeRecursive\<close> filters the children of a node and then recurses into the children
  that are left.
\<close>

fun removeRecursive :: "jsstring set \<Rightarrow> MindMapNode \<Rightarrow> MindMapNode" where
  "removeRecursive idsSet (MindMapNode i t cs e) =
     MindMapNode i t (map (removeRecursive idsSet) (filter (\<lambda>child. node_id child \<notin> idsSet) cs)) e"

definition removeNodes :: "jsstring list \<Rightarrow> MindMapNode \<Rightarrow> MindMapNode" where
  "removeNodes idList prev =
     (let idsSet = set idList
      in if node_id prev \<in> idsSet then prev else removeRecursive idsSet prev)"

text \<open>
  \<open>insertParent\<close>. \<open>newChildren\<close> holds a reference to the \<open>newParent\<close> object, whose
  \<open>children\<close> field is assigned after the loop, so the loop collects \<open>NewParentRef\<close>
  for it and the reference is resolved at the end. With an empty \<open>targetIds\<close> the first
  target is \<open>undefined\<close>, which no id equals, and the path is \<open>null\<close>.
\<close>

datatype child_ref = NewParentRef | ChildObj MindMapNode

fun insertParent_loop ::
  "jsstring set \<Rightarrow> MindMapNode list \<Rightarrow> child_ref list \<times> MindMapNode list \<times> bool
     \<Rightarrow> child_ref list \<times> MindMapNode list \<times> bool" where
  "insertParent_loop targetsSet [] acc = acc"
| "insertParent_loop targetsSet (child # rest) (newChildren, newParentChildren, parentInserted) =
     (if node_id child \<in> targetsSet
      then insertParent_loop targetsSet rest
             (if \<not> parentInserted then newChildren @ [NewParentRef] else newChildren,
              newParentChildren @ [child], True)
      else insertParent_loop targetsSet rest
             (newChildren @ [ChildObj child], newParentChildren, parentInserted))"

definition insertParent_at :: "jsstring \<Rightarrow> jsstring list \<Rightarrow> jsstring \<Rightarrow> MindMapNode \<Rightarrow> MindMapNode" where
  "insertParent_at newId targetIds text commonParent =
     (let targetsSet = set targetIds;
          movingNodes = filter (\<lambda>c. node_id c \<in> targetsSet) (children commonParent);
          filtered = filter (\<lambda>c. node_id c \<notin> targetsSet) (children commonParent);
          originalChildren = filtered;
          (newChildren, newParentChildren, parentInserted) =
             insertParent_loop targetsSet originalChildren ([], [], False);
          newParent = MindMapNode newId text newParentChildren (Some True)
      in set_children commonParent
           (map (\<lambda>r. case r of NewParentRef \<Rightarrow> newParent | ChildObj c \<Rightarrow> c) newChildren))"

definition insertParent :: "jsstring \<Rightarrow> jsstring list \<Rightarrow> jsstring \<Rightarrow> MindMapNode \<Rightarrow> MindMapNode" where
  "insertParent newId targetIds text prev =
     (if node_id prev \<in> set targetIds then prev
      else case targetIds of
          [] \<Rightarrow> prev
        | firstTargetId # _ \<Rightarrow>
            (case findNodePath prev firstTargetId of
               None \<Rightarrow> prev
             | Some pos \<Rightarrow>
                 if length pos + 1 < 2 then prev
                 else (case node_at prev (butlast pos) of
                     None \<Rightarrow> prev
                   | Some commonParent \<Rightarrow>
                       let validTargets =
                             filter (\<lambda>i. \<exists>c \<in> set (children commonParent). node_id c = i) targetIds
                       in if length validTargets = 0 then prev
                          else update_at (butlast pos) (insertParent_at newId targetIds text) prev)))"

section \<open>The selection state of the editing surface (MindMapCanvas)\<close>

text \<open>
  \<open>getVisibleNodes(node, list)\<close> pushes the node on the shared list and, unless the node
  is collapsed (\<open>isExpanded === false\<close>), visits its children in order with the same
  list.
\<close>

fun getVisibleNodes :: "MindMapNode \<Rightarrow> MindMapNode list \<Rightarrow> MindMapNode list" where
  "getVisibleNodes (MindMapNode i t cs e) list =
     (let list1 = list @ [MindMapNode i t cs e]
      in if e \<noteq> Some False then foldl (\<lambda>l c. getVisibleNodes c l) list1 cs else list1)"

text \<open>
  The component state: the tree held by the hook, the set \<open>selectedIds\<close> (a JavaScript
  \<open>Set\<close>, kept as the list of its members in insertion order, which is what
  \<open>Array.from\<close> returns) and \<open>lastFocusedId\<close>.
\<close>

record ViewState =
  root :: MindMapNode
  selectedIds :: "jsstring list"
  lastFocusedId :: jsstring

text \<open>
  The loop \<open>for (let i = currentIdx - 1; i >= 0; i--)\<close> with its \<open>break\<close>:
  \<open>scanBack visible sel n acc\<close> looks at the indices \<open>n - 1\<close> down to \<open>0\<close> and
  returns the pair \<open>(safeId, foundSafe)\<close>.
\<close>

fun scanBack :: "MindMapNode list \<Rightarrow> jsstring list \<Rightarrow> nat \<Rightarrow> jsstring \<times> bool \<Rightarrow> jsstring \<times> bool" where
  "scanBack visible sel 0 acc = acc"
| "scanBack visible sel (Suc i) acc =
     (if node_id (visible ! i) \<notin> set sel then (node_id (visible ! i), True)
      else scanBack visible sel i acc)"

text \<open>
  The branch of \<open>handleKeyDown\<close> for Backspace or Delete with Ctrl or Meta held. The
  three state setters run in one event, so the next state is the tree after the
  \<open>removeNodes\<close> updater together with the new selection and focus.
\<close>

definition handleDeleteKey :: "ViewState \<Rightarrow> ViewState" where
  "handleDeleteKey st =
     (if length (selectedIds st) > 0 \<and> node_id (root st) \<notin> set (selectedIds st)
      then
        let visible = getVisibleNodes (root st) [];
            currentIdx = findIndex (\<lambda>n. node_id n = lastFocusedId st) visible;
            (safeId1, foundSafe) =
               (if currentIdx > 0
                then scanBack visible (selectedIds st) (nat currentIdx) (node_id (root st), False)
                else (node_id (root st), False));
            safeId = (if \<not> foundSafe \<and> length visible > 0 then node_id (visible ! 0) else safeId1)
        in \<lparr> root = removeNodes (selectedIds st) (root st),
             selectedIds = [safeId],
             lastFocusedId = safeId \<rparr>
      else st)"

text \<open>
  The fallback id in the words of the specification: among the ids that come before
  the position of \<open>lastFocusedId\<close> in the visible order, the nearest one that is not
  selected; the first visible id when there is none, or when \<open>lastFocusedId\<close> is not
  after index 0.
\<close>

definition spec_safeId :: "jsstring list \<Rightarrow> jsstring list \<Rightarrow> jsstring \<Rightarrow> jsstring" where
  "spec_safeId visibleIds sel focus =
     (let before = (if focus \<in> set visibleIds then takeWhile (\<lambda>x. x \<noteq> focus) visibleIds else [])
      in case find (\<lambda>x. x \<notin> set sel) (rev before) of
           Some x \<Rightarrow> x
         | None \<Rightarrow> hd visibleIds)"

section \<open>The mandala chart (useMandalaData)\<close>

text \<open>
  A cell is \<open>{ id, text }\<close>; a cell built by spreading \<open>undefined\<close> has no \<open>id\<close>.
  An array of cells can have holes once a write lands beyond its end, so an element is
  an option and \<open>None\<close> is \<open>undefined\<close>.
\<close>

record MandalaCell =
  cell_id :: "jsstring option"
  cell_text :: jsstring

record MandalaGridData =
  grid_id :: jsstring
  title :: jsstring
  cells :: "MandalaCell option list"

record MandalaChartData =
  centerGrid :: MandalaGridData
  surroundingGrids :: "MandalaGridData list"

datatype GridType = Center | Surrounding

datatype js_error = TypeError

text \<open>Reading and writing an array element; a write beyond the end extends the array.\<close>

definition js_get :: "'a option list \<Rightarrow> nat \<Rightarrow> 'a option" where
  "js_get xs i = (if i < length xs then xs ! i else None)"

definition js_set :: "'a option list \<Rightarrow> nat \<Rightarrow> 'a \<Rightarrow> 'a option list" where
  "js_set xs i v =
     (if i < length xs then xs[i := Some v]
      else xs @ replicate (i - length xs) None @ [Some v])"

text \<open>\<open>{ ...cell, text: newText }\<close>, where \<open>cell\<close> may be \<open>undefined\<close>.\<close>

definition with_text :: "MandalaCell option \<Rightarrow> jsstring \<Rightarrow> MandalaCell" where
  "with_text cell newText =
     (case cell of
        Some c \<Rightarrow> c\<lparr>cell_text := newText\<rparr>
      | None \<Rightarrow> \<lparr>cell_id = None, cell_text = newText\<rparr>)"

text \<open>
  \<open>updateCell\<close> is the updater passed to \<open>setData\<close>. The indices are array indices
  (natural numbers).
  When \<open>surroundingGrids[k]\<close> is \<open>undefined\<close>, the copy \<open>{ ...undefined }\<close> has no
  \<open>cells\<close> and spreading that throws a TypeError.
\<close>

definition updateCell ::
  "GridType \<Rightarrow> nat \<Rightarrow> nat \<Rightarrow> jsstring \<Rightarrow> MandalaChartData \<Rightarrow> js_error + MandalaChartData" where
  "updateCell gridType gridIndex cellIndex newText prev =
     (case gridType of
        Center \<Rightarrow>
          let newCells = js_set (cells (centerGrid prev)) cellIndex
                           (with_text (js_get (cells (centerGrid prev)) cellIndex) newText);
              next1 = prev\<lparr>centerGrid := (centerGrid prev)\<lparr>cells := newCells\<rparr>\<rparr>
          in if cellIndex \<noteq> 4
             then if cellIndex < length (surroundingGrids next1)
                  then
                    let surroundingGrid = surroundingGrids next1 ! cellIndex;
                        sCells = js_set (cells surroundingGrid) 4
                                   (with_text (js_get (cells surroundingGrid) 4) newText);
                        newSurrounding =
                          (surroundingGrids next1)[cellIndex := surroundingGrid\<lparr>cells := sCells\<rparr>]
                    in Inr (next1\<lparr>surroundingGrids := newSurrounding\<rparr>)
                  else Inl TypeError
             else Inr next1
      | Surrounding \<Rightarrow>
          if gridIndex < length (surroundingGrids prev)
          then
            let surroundingGrid = surroundingGrids prev ! gridIndex;
                sCells = js_set (cells surroundingGrid) cellIndex
                           (with_text (js_get (cells surroundingGrid) cellIndex) newText);
                newSurrounding =
                  (surroundingGrids prev)[gridIndex := surroundingGrid\<lparr>cells := sCells\<rparr>];
                next1 = prev\<lparr>surroundingGrids := newSurrounding\<rparr>
            in if cellIndex = 4
               then
                 let mainCells = js_set (cells (centerGrid next1)) gridIndex
                                   (with_text (js_get (cells (centerGrid next1)) gridIndex) newText)
                 in Inr (next1\<lparr>centerGrid := (centerGrid next1)\<lparr>cells := mainCells\<rparr>\<rparr>)
               else Inr next1
          else Inl TypeError)"

text \<open>
  The text read at \<open>cells[i]\<close>, if there is a cell there, and the mirror relation
  between cell \<open>i\<close> of the center grid and the center cell of surrounding grid \<open>i\<close>:
  both cells exist and carry the same text.
\<close>

definition text_at :: "MandalaCell option list \<Rightarrow> nat \<Rightarrow> jsstring option" where
  "text_at cs i = map_option cell_text (js_get cs i)"

definition mirrored :: "nat \<Rightarrow> MandalaChartData \<Rightarrow> bool" where
  "mirrored i d =
     (i < length (surroundingGrids d) \<and>
      (case text_at (cells (centerGrid d)) i of
         None \<Rightarrow> False
       | Some a \<Rightarrow> text_at (cells (surroundingGrids d ! i)) 4 = Some a))"

text \<open>
  The initial state of the hook: every cell empty. \<open>digit i\<close> is the template
  \<open>${i}\<close> for an index below 10.
\<close>

definition digit :: "nat \<Rightarrow> jsstring" where
  "digit i = [of_nat (48 + i)]"

definition createEmptyGrid :: "jsstring \<Rightarrow> jsstring \<Rightarrow> MandalaGridData" where
  "createEmptyGrid idPrefix ttl =
     \<lparr> grid_id = js ''grid-'' @ idPrefix,
       title = ttl,
       cells = map (\<lambda>i. Some \<lparr>cell_id = Some (js ''cell-'' @ idPrefix @ js ''-'' @ digit i),
                               cell_text = []\<rparr>) [0..<9] \<rparr>"

definition INITIAL_GRID_TITLES :: "jsstring list" where
  "INITIAL_GRID_TITLES =
     [js ''Top Left'', js ''Top Center'', js ''Top Right'',
      js ''Middle Left'', js ''Center'', js ''Middle Right'',
      js ''Bottom Left'', js ''Bottom Center'', js ''Bottom Right'']"

definition initial_data :: MandalaChartData where
  "initial_data =
     \<lparr> centerGrid = createEmptyGrid (js ''center'') (js ''Main Goal''),
       surroundingGrids =
         map (\<lambda>i. if i = 4 then createEmptyGrid (js ''center-placeholder'') (js ''Center'')
                   else createEmptyGrid (js ''surrounding-'' @ digit i) (INITIAL_GRID_TITLES ! i))
           [0..<9] \<rparr>"

section \<open>The outline text format (export.ts, import.ts)\<close>

subsection \<open>Export\<close>

text \<open>\<open>lines.join('\n')\<close>; the code unit of the line feed is 10.\<close>

fun join_nl :: "jsstring list \<Rightarrow> jsstring" where
  "join_nl [] = []"
| "join_nl [x] = x"
| "join_nl (x # y # zs) = x @ [10] @ join_nl (y # zs)"

text \<open>
  \<open>exportMindMap(node, depth)\<close>: the line of the node, then the exports of the
  children one level deeper. An empty \<open>childrenLines\<close> is falsy.
\<close>

fun exportMindMap :: "MindMapNode \<Rightarrow> nat \<Rightarrow> jsstring" where
  "exportMindMap (MindMapNode i t cs e) depth =
     (let indent = concat (replicate depth (js ''  ''));
          line = indent @ js ''- '' @ t;
          childrenLines = join_nl (map (\<lambda>child. exportMindMap child (depth + 1)) cs)
      in if childrenLines \<noteq> [] then line @ [10] @ childrenLines else line)"

subsection \<open>Lines\<close>

text \<open>
  The white space of \<open>String.prototype.trim\<close> and of the class \<open>\s\<close>: tab, line
  feed, vertical tab, form feed, carriage return, space, no-break space, the Unicode
  space separators, the line and paragraph separators and the byte order mark.
\<close>

definition is_space :: "jschar \<Rightarrow> bool" where
  "is_space c \<longleftrightarrow>
     c = 0x09 \<or> c = 0x0A \<or> c = 0x0B \<or> c = 0x0C \<or> c = 0x0D \<or> c = 0x20 \<or> c = 0xA0 \<or>
     c = 0x1680 \<or> (0x2000 \<le> c \<and> c \<le> 0x200A) \<or> c = 0x2028 \<or> c = 0x2029 \<or>
     c = 0x202F \<or> c = 0x205F \<or> c = 0x3000 \<or> c = 0xFEFF"

text \<open>The line terminators, which \<open>.\<close> does not match.\<close>

definition is_line_terminator :: "jschar \<Rightarrow> bool" where
  "is_line_terminator c \<longleftrightarrow> c = 0x0A \<or> c = 0x0D \<or> c = 0x2028 \<or> c = 0x2029"

definition trim :: "jsstring \<Rightarrow> jsstring" where
  "trim s = rev (dropWhile is_space (rev (dropWhile is_space s)))"

text \<open>\<open>text.split('\n')\<close>: the empty string gives one empty line.\<close>

fun split_nl :: "jsstring \<Rightarrow> jsstring list" where
  "split_nl [] = [[]]"
| "split_nl (c # cs) =
     (if c = 10 then [] # split_nl cs
      else case split_nl cs of
          [] \<Rightarrow> [[c]]
        | l # ls \<Rightarrow> (c # l) # ls)"

definition nonblank_lines :: "jsstring \<Rightarrow> jsstring list" where
  "nonblank_lines text = filter (\<lambda>line. trim line \<noteq> []) (split_nl text)"

text \<open>
  \<open>line.match(/^(\s*)([-+*]\s+)?(.*)/)\<close>. Every part of the pattern can match the
  empty string, so the match never fails and never backtracks: group 1 is the longest
  prefix of white space; group 2, when the next code unit is \<open>-\<close>, \<open>+\<close> or \<open>*\<close> and
  white space follows it, is that code unit with all the white space after it; group 3
  is what follows up to the first line terminator. \<open>parse_line\<close> returns the pair
  \<open>(depth, text)\<close>, where the depth is the length of group 1 with each tab replaced by
  two spaces, halved and rounded down.
\<close>

definition strip_bullet :: "jsstring \<Rightarrow> jsstring" where
  "strip_bullet rest =
     (case rest of
        [] \<Rightarrow> rest
      | c # r \<Rightarrow>
          if (c = 0x2D \<or> c = 0x2B \<or> c = 0x2A) \<and> r \<noteq> [] \<and> is_space (hd r)
          then dropWhile is_space r
          else rest)"

definition parse_line :: "jsstring \<Rightarrow> int \<times> jsstring" where
  "parse_line line =
     (let headerIndent = takeWhile is_space line;
          content = takeWhile (\<lambda>c. \<not> is_line_terminator c)
                      (strip_bullet (dropWhile is_space line));
          replaced = concat (map (\<lambda>c. if c = 0x09 then js ''  '' else [c]) headerIndent)
      in (int (length replaced div 2), content))"

definition parsedLines :: "jsstring \<Rightarrow> (int \<times> jsstring) list" where
  "parsedLines text = map parse_line (nonblank_lines text)"

subsection \<open>The parser\<close>

text \<open>
  The parser builds node objects and keeps references to them on its stack while it
  appends to their \<open>children\<close>, so the objects live in a heap: a list of objects, the
  address of an object being its index, with the addresses of the children in
  \<open>obj_children\<close>. The \<open>k\<close>-th call of \<open>uuidv4()\<close> returns \<open>uuid k\<close>, and the
  object made with it gets the address \<open>k\<close>.
\<close>

datatype obj = Obj (obj_id: jsstring) (obj_text: jsstring) (obj_children: "nat list")

type_synonym heap = "obj list"

text \<open>\<open>parent.children.push(child)\<close>.\<close>

definition push_child :: "heap \<Rightarrow> nat \<Rightarrow> nat \<Rightarrow> heap" where
  "push_child h parent child =
     h[parent := Obj (obj_id (h ! parent)) (obj_text (h ! parent))
                   (obj_children (h ! parent) @ [child])]"

text \<open>
  The stack of \<open>{ node, depth }\<close> pairs, its top at the head of the list.
  \<open>pop_stack\<close> is the loop
  \<open>while (stack.length > 0 && stack[stack.length - 1].depth >= depth) stack.pop()\<close>.
\<close>

fun pop_stack :: "int \<Rightarrow> (nat \<times> int) list \<Rightarrow> (nat \<times> int) list" where
  "pop_stack depth [] = []"
| "pop_stack depth ((node, d) # stack) =
     (if d \<ge> depth then pop_stack depth stack else (node, d) # stack)"

text \<open>
  One round of the \<open>for\<close> loop: make the node, pop, attach the node to the top of the
  stack if there is one, push the node.
\<close>

definition add_line ::
  "(nat \<Rightarrow> jsstring) \<Rightarrow> heap \<times> (nat \<times> int) list \<Rightarrow> int \<times> jsstring \<Rightarrow> heap \<times> (nat \<times> int) list" where
  "add_line uuid state parsed =
     (let (h, stack) = state;
          (depth, text) = parsed;
          newNode = length h;
          h1 = h @ [Obj (uuid newNode) text []];
          stack1 = pop_stack depth stack;
          h2 = (case stack1 of
                  [] \<Rightarrow> h1
                | (parent, d) # below \<Rightarrow> push_child h1 parent newNode)
      in (h2, (newNode, depth) # stack1))"

text \<open>
  The tree that the reference at an address stands for, read with fuel; \<open>None\<close> when
  the fuel runs out or an address is not in the heap.
\<close>

fun read_node :: "nat \<Rightarrow> heap \<Rightarrow> nat \<Rightarrow> MindMapNode option" where
  "read_node 0 h a = None"
| "read_node (Suc fuel) h a =
     (if a < length h
      then case those (map (read_node fuel h) (obj_children (h ! a))) of
          None \<Rightarrow> None
        | Some cs \<Rightarrow> Some (MindMapNode (obj_id (h ! a)) (obj_text (h ! a)) cs None)
      else None)"

text \<open>
  The stack starts with \<open>depth: root === lines[0] as any ? 0 : -1\<close>. \<open>root\<close> is an
  object and \<open>lines[0]\<close> a string, and strict equality of values of different types is
  false.
\<close>

definition root_is_first_line :: bool where
  "root_is_first_line = False"

definition parseMindMap :: "(nat \<Rightarrow> jsstring) \<Rightarrow> jsstring \<Rightarrow> MindMapNode option" where
  "parseMindMap uuid text =
     (let lines = nonblank_lines text
      in if length lines = 0 then Some (MindMapNode (uuid 0) (js ''Root'') [] None)
         else
           let parsed = map parse_line lines;
               (rootText, startIndex) =
                  (if fst (hd parsed) = 0 then (snd (hd parsed), 1) else (js ''Root'', 0));
               h0 = [Obj (uuid 0) rootText []];
               depth0 = (if root_is_first_line then 0 else - 1);
               stack0 = [(0, if fst (hd parsed) = 0 then depth0 else - 1)];
               (h, stack) = foldl (add_line uuid) (h0, stack0) (drop startIndex parsed)
           in read_node (length h) h 0)"

text \<open>An id supply for the examples: \<open>id-0\<close>, \<open>id-1\<close>, and so on.\<close>

definition example_uuid :: "nat \<Rightarrow> jsstring" where
  "example_uuid k = js ''id-'' @ digit k"

subsection \<open>Structure of a tree, and the loop as a function on open frames\<close>

text \<open>The shape of a tree: its texts and the order of its children, without ids and flags.\<close>

datatype outline = Outline (otext: jsstring) (okids: "outline list")

fun shape :: "MindMapNode \<Rightarrow> outline" where
  "shape (MindMapNode i t cs e) = Outline t (map shape cs)"

text \<open>The texts of a tree in depth-first pre-order.\<close>

fun texts :: "MindMapNode \<Rightarrow> jsstring list" where
  "texts (MindMapNode i t cs e) = t # concat (map texts cs)"

fun osize :: "outline \<Rightarrow> nat" where
  "osize (Outline t ks) = Suc (sum_list (map osize ks))"

fun otexts :: "outline \<Rightarrow> jsstring list" where
  "otexts (Outline t ks) = t # concat (map otexts ks)"

text \<open>
  The objects of a tree laid out in the heap from address \<open>a\<close> on, in pre-order, and
  the tree with the ids of those objects.
\<close>

fun kid_addrs :: "nat \<Rightarrow> outline list \<Rightarrow> nat list" where
  "kid_addrs a [] = []"
| "kid_addrs a (k # ks) = a # kid_addrs (a + osize k) ks"

fun enc_tree :: "(nat \<Rightarrow> jsstring) \<Rightarrow> nat \<Rightarrow> outline \<Rightarrow> heap"
  and enc_forest :: "(nat \<Rightarrow> jsstring) \<Rightarrow> nat \<Rightarrow> outline list \<Rightarrow> heap" where
  "enc_tree uuid a (Outline t ks) = Obj (uuid a) t (kid_addrs (Suc a) ks) # enc_forest uuid (Suc a) ks"
| "enc_forest uuid a [] = []"
| "enc_forest uuid a (k # ks) = enc_tree uuid a k @ enc_forest uuid (a + osize k) ks"

fun mk_tree :: "(nat \<Rightarrow> jsstring) \<Rightarrow> nat \<Rightarrow> outline \<Rightarrow> MindMapNode"
  and mk_forest :: "(nat \<Rightarrow> jsstring) \<Rightarrow> nat \<Rightarrow> outline list \<Rightarrow> MindMapNode list" where
  "mk_tree uuid a (Outline t ks) = MindMapNode (uuid a) t (mk_forest uuid (Suc a) ks) None"
| "mk_forest uuid a [] = []"
| "mk_forest uuid a (k # ks) = mk_tree uuid a k # mk_forest uuid (a + osize k) ks"

text \<open>
  A frame is a node that is still on the stack: its depth, its text and its finished
  children. The heap and the stack of the parser are determined by the frames, top
  first; in \<open>frames_heap\<close> the list \<open>nx\<close> holds the address of the frame above, which
  is the last child of the frame below it.
\<close>

type_synonym frame = "int \<times> jsstring \<times> outline list"

fun frames_size :: "frame list \<Rightarrow> nat" where
  "frames_size [] = 0"
| "frames_size ((d, t, ks) # fs) = frames_size fs + Suc (sum_list (map osize ks))"

fun frames_heap :: "(nat \<Rightarrow> jsstring) \<Rightarrow> frame list \<Rightarrow> nat list \<Rightarrow> heap" where
  "frames_heap uuid [] nx = []"
| "frames_heap uuid ((d, t, ks) # fs) nx =
     frames_heap uuid fs [frames_size fs]
       @ Obj (uuid (frames_size fs)) t (kid_addrs (Suc (frames_size fs)) ks @ nx)
       # enc_forest uuid (Suc (frames_size fs)) ks"

fun frames_stack :: "frame list \<Rightarrow> (nat \<times> int) list" where
  "frames_stack [] = []"
| "frames_stack ((d, t, ks) # fs) = (frames_size fs, d) # frames_stack fs"

text \<open>Popping a frame finishes its node, which is the last child of the frame below.\<close>

fun close_frames :: "int \<Rightarrow> frame list \<Rightarrow> frame list" where
  "close_frames depth [] = []"
| "close_frames depth [f] = [f]"
| "close_frames depth ((d, t, ks) # (d', t', ks') # fs) =
     (if d \<ge> depth then close_frames depth ((d', t', ks' @ [Outline t ks]) # fs)
      else (d, t, ks) # (d', t', ks') # fs)"

definition frame_step :: "frame list \<Rightarrow> int \<times> jsstring \<Rightarrow> frame list" where
  "frame_step fs parsed = (fst parsed, snd parsed, []) # close_frames (fst parsed) fs"

fun collapse :: "frame list \<Rightarrow> outline" where
  "collapse [] = Outline [] []"
| "collapse [(d, t, ks)] = Outline t ks"
| "collapse ((d, t, ks) # (d', t', ks') # fs) = collapse ((d', t', ks' @ [Outline t ks]) # fs)"

text \<open>The parsed lines of an exported tree: each node with its depth, in pre-order.\<close>

fun flat :: "int \<Rightarrow> outline \<Rightarrow> (int \<times> jsstring) list"
  and flats :: "int \<Rightarrow> outline list \<Rightarrow> (int \<times> jsstring) list" where
  "flat d (Outline t ks) = (d, t) # flats (d + 1) ks"
| "flats d [] = []"
| "flats d (k # ks) = flat d k @ flats d ks"

text \<open>
  The texts that survive export and import: no white space at the start and no line
  terminator inside.
\<close>

definition plain_text :: "jsstring \<Rightarrow> bool" where
  "plain_text t \<longleftrightarrow> (t = [] \<or> \<not> is_space (hd t)) \<and> (\<forall>c \<in> set t. \<not> is_line_terminator c)"

text \<open>The line that \<open>exportMindMap\<close> writes for a node of a given depth and text.\<close>

definition render :: "int \<times> jsstring \<Rightarrow> jsstring" where
  "render p = concat (replicate (nat (fst p)) (js ''  '')) @ js ''- '' @ snd p"

text \<open>The texts held by the frames, bottom frame first, each with its finished children.\<close>

fun frames_texts :: "frame list \<Rightarrow> jsstring list" where
  "frames_texts [] = []"
| "frames_texts ((d, t, ks) # fs) = frames_texts fs @ t # concat (map otexts ks)"

text \<open>More finished children for the top frame.\<close>

fun add_kids :: "outline list \<Rightarrow> frame list \<Rightarrow> frame list" where
  "add_kids ks [] = []"
| "add_kids ks ((d, t, ks0) # fs) = (d, t, ks0 @ ks) # fs"

text \<open>The bottom frame is below the depth of a line: it is never popped.\<close>

definition rooted :: "int \<Rightarrow> frame list \<Rightarrow> bool" where
  "rooted depth fs \<longleftrightarrow> fs \<noteq> [] \<and> fst (last fs) < depth"

section \<open>Example inputs\<close>

text \<open>
  The tree of the specification's scenarios: a root with the children Child 1 (which has
  one child, Grandchild 1) and Child 2.
\<close>

definition grandchild1 :: MindMapNode where
  "grandchild1 = MindMapNode (js ''grandchild-1'') (js ''Grandchild 1'') [] None"

definition child1 :: MindMapNode where
  "child1 = MindMapNode (js ''child-1'') (js ''Child 1'') [grandchild1] None"

definition child2 :: MindMapNode where
  "child2 = MindMapNode (js ''child-2'') (js ''Child 2'') [] None"

definition example_tree :: MindMapNode where
  "example_tree = MindMapNode (js ''root'') (js ''Root'') [child1, child2] (Some True)"

text \<open>A root \<open>R\<close> with the three children \<open>A\<close>, \<open>B\<close> and \<open>C\<close>.\<close>

definition nodeA :: MindMapNode where
  "nodeA = MindMapNode (js ''a'') (js ''A'') [] None"

definition nodeB :: MindMapNode where
  "nodeB = MindMapNode (js ''b'') (js ''B'') [] None"

definition nodeC :: MindMapNode where
  "nodeC = MindMapNode (js ''c'') (js ''C'') [] None"

definition abc_tree :: MindMapNode where
  "abc_tree = MindMapNode (js ''r'') (js ''R'') [nodeA, nodeB, nodeC] (Some True)"

text \<open>A single node whose text starts with a space.\<close>

definition padded_tree :: MindMapNode where
  "padded_tree = MindMapNode (js ''r'') (js '' a'') [] None"

section \<open>Positions, ids and the search for a node\<close>


lemma removeRecursive_ids_disjoint:
  "set (concat (map ids (children (removeRecursive S n)))) \<inter> S = {}"
proof (induction n)
  case (MindMapNode i t cs e)
  have "\<And>c. c \<in> set cs \<Longrightarrow> node_id c \<notin> S \<Longrightarrow> set (ids (removeRecursive S c)) \<inter> S = {}"
  proof -
    fix c assume c: "c \<in> set cs" and n: "node_id c \<notin> S"
    obtain i' t' cs' e' where eq: "c = MindMapNode i' t' cs' e'" by (cases c)
    from MindMapNode.IH [OF c] eq n show "set (ids (removeRecursive S c)) \<inter> S = {}"
      by simp
  qed
  then show ?case by auto
qed

lemma node_id_removeRecursive [simp]: "node_id (removeRecursive S n) = node_id n"
  by (cases n) simp

lemma node_at_id_in_ids: "node_at T p = Some N \<Longrightarrow> node_id N \<in> set (ids T)"
proof (induction p arbitrary: T)
  case Nil
  then have "N = T" by simp
  then show ?case by (cases T) simp
next
  case (Cons k p)
  obtain i t cs e where T: "T = MindMapNode i t cs e" by (cases T)
  from Cons.prems T have k: "k < length cs" and n: "node_at (cs ! k) p = Some N"
    by (auto split: if_splits)
  have "cs ! k \<in> set cs" using k by simp
  with Cons.IH [OF n] show ?case unfolding T by auto
qed

lemma find_absent:
  "targetId \<notin> set (ids T) \<Longrightarrow> findNodePath T targetId = None"
  "targetId \<notin> set (concat (map ids cs)) \<Longrightarrow> findInChildren cs targetId k = None"
  by (induction T targetId and cs targetId k rule: findNodePath_findInChildren.induct) auto

lemma findInChildren_at:
  "k < length cs \<Longrightarrow> \<forall>j<k. findNodePath (cs ! j) X = None \<Longrightarrow> findNodePath (cs ! k) X = Some p
    \<Longrightarrow> findInChildren cs X b = Some ((b + k) # p)"
proof (induction cs arbitrary: k b)
  case Nil
  then show ?case by simp
next
  case (Cons c cs)
  show ?case
  proof (cases k)
    case 0
    with Cons.prems show ?thesis by simp
  next
    case (Suc k')
    from Cons.prems(2) Suc have c: "findNodePath c X = None" by auto
    from Cons.prems Suc have "findInChildren cs X (Suc b) = Some ((Suc b + k') # p)"
      by (intro Cons.IH) auto
    with c Suc show ?thesis by simp
  qed
qed

lemma distinct_concat_nth:
  "distinct (concat xss) \<Longrightarrow> j < k \<Longrightarrow> k < length xss \<Longrightarrow> set (xss ! j) \<inter> set (xss ! k) = {}"
proof (induction xss arbitrary: j k)
  case Nil
  then show ?case by simp
next
  case (Cons xs xss)
  show ?case
  proof (cases j)
    case 0
    with Cons.prems obtain k' where k: "k = Suc k'" "k' < length xss" by (cases k) auto
    from Cons.prems(1) have "set xs \<inter> set (concat xss) = {}" by simp
    moreover have "xss ! k' \<in> set xss" using k by simp
    then have "set (xss ! k') \<subseteq> set (concat xss)" by auto
    ultimately show ?thesis using 0 k by auto
  next
    case (Suc j')
    with Cons.prems obtain k' where k: "k = Suc k'" "k' < length xss" "j' < k'" by (cases k) auto
    from Cons.prems(1) have "distinct (concat xss)" by simp
    from Cons.IH [OF this k(3) k(2)] Suc k show ?thesis by simp
  qed
qed

lemma distinct_concat_elem:
  "distinct (concat xss) \<Longrightarrow> k < length xss \<Longrightarrow> distinct (xss ! k)"
  by (induction xss arbitrary: k) (auto simp: nth_Cons split: nat.splits)

lemma find_at_position:
  "distinct (ids T) \<Longrightarrow> node_at T p = Some N \<Longrightarrow> findNodePath T (node_id N) = Some p"
proof (induction p arbitrary: T)
  case Nil
  then have "N = T" by simp
  then show ?case by (cases T) simp
next
  case (Cons k p)
  obtain i t cs e where T: "T = MindMapNode i t cs e" by (cases T)
  from Cons.prems T have k: "k < length cs" and n: "node_at (cs ! k) p = Some N"
    by (auto split: if_splits)
  from Cons.prems(1) T have d: "distinct (concat (map ids cs))" and i: "i \<notin> set (concat (map ids cs))"
    by simp_all
  have dk: "distinct (ids (cs ! k))"
    using distinct_concat_elem [OF d, of k] k by simp
  have here: "findNodePath (cs ! k) (node_id N) = Some p"
    by (rule Cons.IH [OF dk n])
  have mem: "node_id N \<in> set (ids (cs ! k))" by (rule node_at_id_in_ids [OF n])
  have before: "\<forall>j<k. findNodePath (cs ! j) (node_id N) = None"
  proof (intro allI impI)
    fix j assume j: "j < k"
    have "set (map ids cs ! j) \<inter> set (map ids cs ! k) = {}"
      by (rule distinct_concat_nth [OF d j]) (simp add: k)
    with j k mem have "node_id N \<notin> set (ids (cs ! j))" by auto
    then show "findNodePath (cs ! j) (node_id N) = None" by (rule find_absent)
  qed
  have "node_id N \<in> set (concat (map ids cs))" using mem k by auto
  with i have ne: "i \<noteq> node_id N" by auto
  from findInChildren_at [OF k before here, of 0] ne show ?case unfolding T by simp
qed

lemma node_at_append:
  "node_at T (p @ q) = (case node_at T p of None \<Rightarrow> None | Some P \<Rightarrow> node_at P q)"
  by (induction p arbitrary: T) auto

lemma node_at_distinct:
  "distinct (ids T) \<Longrightarrow> node_at T p = Some P \<Longrightarrow> distinct (ids P)"
proof (induction p arbitrary: T)
  case Nil
  then show ?case by simp
next
  case (Cons k p)
  obtain i t cs e where T: "T = MindMapNode i t cs e" by (cases T)
  from Cons.prems T have k: "k < length cs" and n: "node_at (cs ! k) p = Some P"
    by (auto split: if_splits)
  from Cons.prems(1) T have d: "distinct (concat (map ids cs))" by simp
  have "distinct (ids (cs ! k))" using distinct_concat_elem [OF d, of k] k by simp
  then show ?case using n by (rule Cons.IH)
qed

lemma update_at_cong:
  "node_at T p = Some P \<Longrightarrow> f P = g P \<Longrightarrow> update_at p f T = update_at p g T"
  by (induction p arbitrary: T) (auto split: if_splits)

lemma node_id_in_ids: "node_id n \<in> set (ids n)"
  by (cases n) simp

lemma distinct_ids_children: "distinct (ids P) \<Longrightarrow> distinct (concat (map ids (children P)))"
  by (cases P) simp

lemma distinct_child_ids:
  assumes "distinct (ids P)"
  shows "distinct (map node_id (children P))"
proof -
  from assms have d: "distinct (concat (map ids (children P)))" by (rule distinct_ids_children)
  show ?thesis unfolding distinct_conv_nth
  proof (intro allI impI)
    fix a b assume a: "a < length (map node_id (children P))" and b: "b < length (map node_id (children P))" and ab: "a \<noteq> b"
    have *: "set (ids (children P ! a)) \<inter> set (ids (children P ! b)) = {}"
    proof (cases "a < b")
      case True
      from distinct_concat_nth [OF d True] b show ?thesis using a True by simp
    next
      case False
      with ab have "b < a" by simp
      from distinct_concat_nth [OF d this] a b show ?thesis by auto
    qed
    have "node_id (children P ! a) \<in> set (ids (children P ! a))" by (rule node_id_in_ids)
    moreover have "node_id (children P ! b) \<in> set (ids (children P ! b))" by (rule node_id_in_ids)
    ultimately show "map node_id (children P) ! a \<noteq> map node_id (children P) ! b"
      using * a b by auto
  qed
qed

lemma findIndex_distinct:
  "distinct (map f xs) \<Longrightarrow> k < length xs \<Longrightarrow> findIndex (\<lambda>x. f x = f (xs ! k)) xs = int k"
proof (induction xs arbitrary: k)
  case Nil
  then show ?case by simp
next
  case (Cons x xs)
  show ?case
  proof (cases k)
    case 0
    then show ?thesis by simp
  next
    case (Suc k')
    with Cons.prems have "f x \<noteq> f (xs ! k')" by auto
    moreover from Cons.prems Suc have "findIndex (\<lambda>x. f x = f (xs ! k')) xs = int k'"
      by (intro Cons.IH) auto
    ultimately show ?thesis using Suc by simp
  qed
qed

lemma removeRecursive_ids_subset:
  "set (ids (removeRecursive S n)) \<subseteq> set (ids n)"
proof (induction n)
  case (MindMapNode i t cs e)
  then show ?case by fastforce
qed

lemma node_at_update_at:
  "node_at T p = Some P \<Longrightarrow> node_at (update_at p f T) p = Some (f P)"
proof (induction p arbitrary: T)
  case Nil
  then show ?case by simp
next
  case (Cons k p)
  then have k: "k < length (children T)" and n: "node_at (children T ! k) p = Some P"
    by (auto split: if_splits)
  from Cons.IH [OF n] k show ?case by (simp add: set_children_def)
qed

text \<open>
  What \<open>insertParent\<close> returns for any root with three children when the first and the
  third are the targets: the second child alone.
\<close>

lemma insertParent_first_and_third:
  assumes "node_id R \<noteq> node_id A" and "node_id R \<noteq> node_id C"
    and "node_id B \<noteq> node_id A" and "node_id B \<noteq> node_id C"
    and "children R = [A, B, C]"
  shows "insertParent newId [node_id A, node_id C] t R = set_children R [B]"
proof -
  obtain i tx cs e where R: "R = MindMapNode i tx cs e" by (cases R)
  obtain ia ta ca ea where A: "A = MindMapNode ia ta ca ea" by (cases A)
  have pos: "findNodePath R (node_id A) = Some [0]"
    using assms(1,5) by (simp add: R A)
  have at: "insertParent_at newId [node_id A, node_id C] t R = set_children R [B]"
    using assms by (simp add: insertParent_at_def)
  show ?thesis
    using assms(1,2,5) by (simp add: insertParent_def pos at)
qed

section \<open>Claims about the mutation engine\<close>

subsection \<open>addSibling and addChild\<close>

text \<open>
  Claim C4 (insertSibling). In a tree with unique ids, let \<open>X\<close> be the id of the child
  at index \<open>i\<close> of the node \<open>P\<close> found at position \<open>p\<close>. Then \<open>addSibling\<close> returns
  the tree in which the node at \<open>p\<close> has the children of \<open>P\<close> with one new node, of
  text "New Node" and without children, placed at index \<open>i + 1\<close>. The result is
  \<open>update_at\<close> of one node, so nothing else in the tree changes.
\<close>

theorem addSibling_inserts_after:
  assumes "distinct (ids T)"
    and "node_at T p = Some P"
    and "i < length (children P)"
    and "node_id (children P ! i) = X"
  shows "addSibling newId X T =
     update_at p (\<lambda>parent. set_children parent
        (take (Suc i) (children parent) @ [MindMapNode newId (js ''New Node'') [] None]
           @ drop (Suc i) (children parent))) T \<and>
     node_at (addSibling newId X T) p =
       Some (set_children P
         (take (Suc i) (children P) @ [MindMapNode newId (js ''New Node'') [] None]
            @ drop (Suc i) (children P)))"
proof -
  have at: "node_at T (p @ [i]) = Some (children P ! i)"
    using assms(2,3) by (simp add: node_at_append)
  have pos: "findNodePath T X = Some (p @ [i])"
    using find_at_position [OF assms(1) at] assms(4) by simp
  have notroot: "X \<noteq> node_id T"
  proof
    assume "X = node_id T"
    then have "findNodePath T X = Some []" by (cases T) simp
    with pos show False by simp
  qed
  have dP: "distinct (map node_id (children P))"
    by (rule distinct_child_ids [OF node_at_distinct [OF assms(1,2)]])
  have idx: "findIndex (\<lambda>n. node_id n = X) (children P) = int i"
    using findIndex_distinct [OF dP assms(3)] assms(4) by simp
  have "addSibling newId X T =
     update_at p (\<lambda>parent.
        let index = findIndex (\<lambda>n. node_id n = X) (children parent);
            newNode = MindMapNode newId (js ''New Node'') [] None
        in set_children parent (splice_in (nat (index + 1)) newNode (children parent))) T"
    using notroot pos by (simp add: addSibling_def)
  also have "\<dots> = update_at p (\<lambda>parent. set_children parent
        (take (Suc i) (children parent) @ [MindMapNode newId (js ''New Node'') [] None]
           @ drop (Suc i) (children parent))) T"
    by (rule update_at_cong [OF assms(2)]) (simp add: idx splice_in_def nat_add_distrib)
  finally have eq: "addSibling newId X T =
     update_at p (\<lambda>parent. set_children parent
        (take (Suc i) (children parent) @ [MindMapNode newId (js ''New Node'') [] None]
           @ drop (Suc i) (children parent))) T" .
  show ?thesis unfolding eq using node_at_update_at [OF assms(2)] by simp
qed

theorem addSibling_inserts_after_witness:
  "distinct (ids example_tree) \<and>
   node_at example_tree [0] = Some child1 \<and>
   0 < length (children child1) \<and>
   node_id (children child1 ! 0) = js ''grandchild-1'' \<and>
   addSibling (js ''new'') (js ''grandchild-1'') example_tree =
     MindMapNode (js ''root'') (js ''Root'')
       [MindMapNode (js ''child-1'') (js ''Child 1'')
          [grandchild1, MindMapNode (js ''new'') (js ''New Node'') [] None] None,
        child2] (Some True)"
proof -
  have h1: "distinct (ids example_tree)"
    by (simp add: example_tree_def child1_def child2_def grandchild1_def js_def)
  have h2: "node_at example_tree [0] = Some child1"
    by (simp add: example_tree_def)
  have h3: "0 < length (children child1)"
    by (simp add: child1_def)
  have h4: "node_id (children child1 ! 0) = js ''grandchild-1''"
    by (simp add: child1_def grandchild1_def)
  have "addSibling (js ''new'') (js ''grandchild-1'') example_tree =
     MindMapNode (js ''root'') (js ''Root'')
       [MindMapNode (js ''child-1'') (js ''Child 1'')
          [grandchild1, MindMapNode (js ''new'') (js ''New Node'') [] None] None,
        child2] (Some True)"
    using addSibling_inserts_after [OF h1 h2 h3 h4, of "js ''new''"]
    by (simp add: example_tree_def child1_def set_children_def)
  with h1 h2 h3 h4 show ?thesis by blast
qed

text \<open>
  Claim C5 (insertChild). When no node has the id, \<open>addChild\<close> returns the tree as it
  is. In a tree with unique ids, when the node \<open>N\<close> at position \<open>p\<close> has the id, the
  result has at \<open>p\<close> the node \<open>N\<close> with one new node, of text "New Child" and without
  children, appended to its children and \<open>isExpanded\<close> set to true. The result is
  \<open>update_at\<close> of one node, so nothing else in the tree changes.
\<close>

theorem addChild_appends:
  "(X \<notin> set (ids T) \<longrightarrow> addChild newId X T = T) \<and>
   (distinct (ids T) \<and> node_at T p = Some N \<and> node_id N = X \<longrightarrow>
      addChild newId X T =
        update_at p (\<lambda>target. MindMapNode (node_id target) (node_text target)
           (children target @ [MindMapNode newId (js ''New Child'') [] None]) (Some True)) T \<and>
      node_at (addChild newId X T) p =
        Some (MindMapNode X (node_text N)
           (children N @ [MindMapNode newId (js ''New Child'') [] None]) (Some True)))"
proof (intro conjI impI)
  assume "X \<notin> set (ids T)"
  then show "addChild newId X T = T" by (simp add: addChild_def find_absent)
next
  assume a: "distinct (ids T) \<and> node_at T p = Some N \<and> node_id N = X"
  then have "findNodePath T X = Some p" using find_at_position by blast
  then show eq: "addChild newId X T =
        update_at p (\<lambda>target. MindMapNode (node_id target) (node_text target)
           (children target @ [MindMapNode newId (js ''New Child'') [] None]) (Some True)) T"
    by (simp add: addChild_def set_children_def set_isExpanded_def)
  from a have "node_at T p = Some N" and "node_id N = X" by simp_all
  then show "node_at (addChild newId X T) p =
        Some (MindMapNode X (node_text N)
           (children N @ [MindMapNode newId (js ''New Child'') [] None]) (Some True))"
    unfolding eq using node_at_update_at [of T p N] by simp
qed

theorem addChild_appends_witness:
  "js ''nowhere'' \<notin> set (ids example_tree) \<and>
   addChild (js ''new'') (js ''nowhere'') example_tree = example_tree \<and>
   distinct (ids example_tree) \<and> node_at example_tree [0] = Some child1 \<and>
   node_id child1 = js ''child-1'' \<and>
   addChild (js ''new'') (js ''child-1'') example_tree =
     MindMapNode (js ''root'') (js ''Root'')
       [MindMapNode (js ''child-1'') (js ''Child 1'')
          [grandchild1, MindMapNode (js ''new'') (js ''New Child'') [] None] (Some True),
        child2] (Some True)"
proof -
  have h0: "js ''nowhere'' \<notin> set (ids example_tree)"
    by (simp add: example_tree_def child1_def child2_def grandchild1_def js_def)
  have h1: "distinct (ids example_tree)"
    by (simp add: example_tree_def child1_def child2_def grandchild1_def js_def)
  have h2: "node_at example_tree [0] = Some child1"
    by (simp add: example_tree_def)
  have h3: "node_id child1 = js ''child-1''"
    by (simp add: child1_def)
  have a: "addChild (js ''new'') (js ''nowhere'') example_tree = example_tree"
    using addChild_appends [of "js ''nowhere''" example_tree "js ''new''"] h0 by blast
  have "addChild (js ''new'') (js ''child-1'') example_tree =
        update_at [0] (\<lambda>target. MindMapNode (node_id target) (node_text target)
           (children target @ [MindMapNode (js ''new'') (js ''New Child'') [] None]) (Some True)) example_tree"
    using addChild_appends [of "js ''child-1''" example_tree "js ''new''" "[0]" child1] h1 h2 h3 by blast
  then have b: "addChild (js ''new'') (js ''child-1'') example_tree =
     MindMapNode (js ''root'') (js ''Root'')
       [MindMapNode (js ''child-1'') (js ''Child 1'')
          [grandchild1, MindMapNode (js ''new'') (js ''New Child'') [] None] (Some True),
        child2] (Some True)"
    by (simp add: example_tree_def child1_def set_children_def)
  from h0 h1 h2 h3 a b show ?thesis by blast
qed

subsection \<open>removeNodes\<close>

text \<open>
  Claim C2 as stated fails: with the root's id in the list, \<open>removeNodes\<close> returns at
  the guard and Child 1 is still in the tree.
\<close>

theorem removeNodes_root_listed_counterexample:
  "child1 \<in> set (children example_tree) \<and>
   \<not> (node_id child1 \<notin> set (ids (removeNodes [node_id example_tree, node_id child1] example_tree)))"
  by (simp add: removeNodes_def example_tree_def child1_def)

text \<open>
  Claim C2, amended. When the root's id is in the list, \<open>removeNodes\<close> returns the tree
  unchanged, so the root stays and nothing else is removed either. When the root's id is
  not in the list, the root stays, no node with a listed id is left in the result, and
  the result has no node that the input did not have.
\<close>

theorem removeNodes_root_guard:
  "(node_id T \<in> set idList \<longrightarrow> removeNodes idList T = T) \<and>
   (node_id T \<notin> set idList \<longrightarrow>
      node_id (removeNodes idList T) = node_id T \<and>
      set (ids (removeNodes idList T)) \<inter> set idList = {} \<and>
      set (ids (removeNodes idList T)) \<subseteq> set (ids T))"
proof (intro conjI impI)
  assume "node_id T \<in> set idList"
  then show "removeNodes idList T = T" by (simp add: removeNodes_def)
next
  assume n: "node_id T \<notin> set idList"
  then show "node_id (removeNodes idList T) = node_id T" by (simp add: removeNodes_def)
  have "ids (removeRecursive (set idList) T)
      = node_id T # concat (map ids (children (removeRecursive (set idList) T)))"
    by (cases T) simp
  with n removeRecursive_ids_disjoint [of "set idList" T]
  show "set (ids (removeNodes idList T)) \<inter> set idList = {}"
    by (simp add: removeNodes_def)
  from n show "set (ids (removeNodes idList T)) \<subseteq> set (ids T)"
    by (simp add: removeNodes_def removeRecursive_ids_subset)
qed

theorem removeNodes_root_guard_witness:
  "node_id example_tree \<in> set [node_id example_tree, node_id child1] \<and>
   removeNodes [node_id example_tree, node_id child1] example_tree = example_tree \<and>
   node_id example_tree \<notin> set [node_id child1] \<and>
   removeNodes [node_id child1] example_tree =
     MindMapNode (js ''root'') (js ''Root'') [child2] (Some True)"
proof -
  have h1: "node_id example_tree \<in> set [node_id example_tree, node_id child1]" by simp
  have h2: "node_id example_tree \<notin> set [node_id child1]"
    by (simp add: example_tree_def child1_def js_def)
  have a: "removeNodes [node_id example_tree, node_id child1] example_tree = example_tree"
    using removeNodes_root_guard [of example_tree "[node_id example_tree, node_id child1]"] h1 by blast
  have b: "removeNodes [node_id child1] example_tree =
     MindMapNode (js ''root'') (js ''Root'') [child2] (Some True)"
    by (simp add: removeNodes_def example_tree_def child1_def child2_def js_def)
  from h1 h2 a b show ?thesis by blast
qed

subsection \<open>insertParent\<close>

text \<open>
  Claim C1 (insertParent positional contract), evaluated on the code. For the root
  \<open>R\<close> with children \<open>[A, B, C]\<close> and the targets \<open>A\<close> and \<open>C\<close>, the first filter has
  already taken \<open>A\<close> and \<open>C\<close> out of the parent's children when the loop copies them,
  so the loop meets no target: the new parent is never inserted and the result has the
  single child \<open>B\<close>.
\<close>

theorem insertParent_loses_targets:
  "insertParent (js ''g'') [node_id nodeA, node_id nodeC] (js ''G'') abc_tree =
     MindMapNode (js ''r'') (js ''R'') [nodeB] (Some True)"
  by (simp add: insertParent_def insertParent_at_def abc_tree_def nodeA_def nodeB_def nodeC_def
      js_def set_children_def)

section \<open>The delete key\<close>

lemma findIndex_neg_iff: "findIndex P xs < 0 \<longleftrightarrow> \<not> (\<exists>x \<in> set xs. P x)"
  by (induction xs) (auto simp: Let_def)

lemma findIndex_none: "\<not> (\<exists>x \<in> set xs. P x) \<Longrightarrow> findIndex P xs = - 1"
  by (induction xs) (auto simp: Let_def)

lemma findIndex_takeWhile:
  "\<exists>x \<in> set xs. P x \<Longrightarrow> findIndex P xs = int (length (takeWhile (\<lambda>x. \<not> P x) xs))"
  by (induction xs) (auto simp: Let_def findIndex_neg_iff)

lemma scanBack_find:
  "n \<le> length visible \<Longrightarrow>
   scanBack visible sel n acc =
     (case find (\<lambda>x. x \<notin> set sel) (rev (take n (map node_id visible))) of
        Some x \<Rightarrow> (x, True) | None \<Rightarrow> acc)"
proof (induction n)
  case 0
  then show ?case by simp
next
  case (Suc n)
  then have n: "n < length visible" by simp
  then have "take (Suc n) (map node_id visible) = take n (map node_id visible) @ [node_id (visible ! n)]"
    by (simp add: take_Suc_conv_app_nth)
  with Suc show ?case by simp
qed

lemma getVisibleNodes_acc:
  "getVisibleNodes n acc = acc @ getVisibleNodes n []"
proof (induction n arbitrary: acc)
  case (MindMapNode i t cs e)
  have fold: "set ds \<subseteq> set cs \<Longrightarrow>
      foldl (\<lambda>l c. getVisibleNodes c l) a ds = a @ foldl (\<lambda>l c. getVisibleNodes c l) [] ds" for ds a
  proof (induction ds arbitrary: a rule: rev_induct)
    case Nil
    then show ?case by simp
  next
    case (snoc d ds)
    then have d: "d \<in> set cs" and sub: "set ds \<subseteq> set cs" by simp_all
    have "foldl (\<lambda>l c. getVisibleNodes c l) a (ds @ [d])
        = getVisibleNodes d (foldl (\<lambda>l c. getVisibleNodes c l) a ds)" by simp
    also have "\<dots> = foldl (\<lambda>l c. getVisibleNodes c l) a ds @ getVisibleNodes d []"
      by (rule MindMapNode.IH [OF d])
    also have "\<dots> = a @ foldl (\<lambda>l c. getVisibleNodes c l) [] ds @ getVisibleNodes d []"
      using snoc.IH [OF sub, of a] by simp
    also have "foldl (\<lambda>l c. getVisibleNodes c l) [] ds @ getVisibleNodes d []
        = foldl (\<lambda>l c. getVisibleNodes c l) [] (ds @ [d])"
      using MindMapNode.IH [OF d, of "foldl (\<lambda>l c. getVisibleNodes c l) [] ds"] by simp
    finally show ?case .
  qed
  show ?case using fold [of cs "acc @ [MindMapNode i t cs e]"] fold [of cs "[MindMapNode i t cs e]"]
    by (simp add: Let_def)
qed

lemma getVisibleNodes_head: "\<exists>rest. getVisibleNodes n [] = n # rest"
proof (cases n)
  case (MindMapNode i t cs e)
  have "foldl (\<lambda>l c. getVisibleNodes c l) [n] ds = n # foldl (\<lambda>l c. getVisibleNodes c l) [] ds" for ds
  proof (induction ds rule: rev_induct)
    case Nil
    then show ?case by simp
  next
    case (snoc d ds)
    then show ?case using getVisibleNodes_acc [of d "n # foldl (\<lambda>l c. getVisibleNodes c l) [] ds"]
       getVisibleNodes_acc [of d "foldl (\<lambda>l c. getVisibleNodes c l) [] ds"] by simp
  qed
  from this [of cs] show ?thesis unfolding MindMapNode by (simp add: Let_def)
qed

text \<open>
  Claim C7 (Ctrl/Cmd + Backspace or Delete). When \<open>selectedIds\<close> is not empty and does
  not contain the root's id, the next state has the tree \<open>removeNodes\<close> returns for all
  of \<open>selectedIds\<close>, and both \<open>selectedIds\<close> and \<open>lastFocusedId\<close> are the fallback id
  \<open>spec_safeId\<close> of the visible order.
\<close>

theorem handleDeleteKey_transition:
  assumes "selectedIds st \<noteq> []" and "node_id (root st) \<notin> set (selectedIds st)"
  shows "handleDeleteKey st =
     (let safeId = spec_safeId (map node_id (getVisibleNodes (root st) [])) (selectedIds st) (lastFocusedId st)
      in \<lparr> root = removeNodes (selectedIds st) (root st), selectedIds = [safeId], lastFocusedId = safeId \<rparr>)"
proof -
  define visible where "visible = getVisibleNodes (root st) []"
  define sel where "sel = selectedIds st"
  define focus where "focus = lastFocusedId st"
  define idx where "idx = findIndex (\<lambda>n. node_id n = focus) visible"
  obtain rest where vis: "visible = root st # rest"
    using getVisibleNodes_head [of "root st"] by (auto simp: visible_def)
  define scan where "scan = (if idx > 0 then scanBack visible sel (nat idx) (node_id (root st), False)
                else (node_id (root st), False))"
  have code: "handleDeleteKey st =
      \<lparr> root = removeNodes sel (root st),
        selectedIds = [if \<not> snd scan \<and> length visible > 0 then node_id (visible ! 0) else fst scan],
        lastFocusedId = (if \<not> snd scan \<and> length visible > 0 then node_id (visible ! 0) else fst scan) \<rparr>"
    unfolding scan_def idx_def visible_def sel_def focus_def handleDeleteKey_def
    using assms by (simp add: Let_def case_prod_beta)
  have safe: "(if \<not> snd scan \<and> length visible > 0 then node_id (visible ! 0) else fst scan)
      = spec_safeId (map node_id visible) sel focus"
  proof (cases "focus \<in> set (map node_id visible)")
    case False
    then have "idx = - 1" unfolding idx_def by (intro findIndex_none) auto
    with False vis show ?thesis by (simp add: scan_def spec_safeId_def)
  next
    case True
    then have ex: "\<exists>x \<in> set visible. node_id x = focus" by auto
    have idx: "idx = int (length (takeWhile (\<lambda>x. node_id x \<noteq> focus) visible))"
      unfolding idx_def by (rule findIndex_takeWhile [OF ex])
    have le: "nat idx \<le> length visible" using idx by (simp add: length_takeWhile_le)
    have tk: "take (nat idx) (map node_id visible) = takeWhile (\<lambda>x. x \<noteq> focus) (map node_id visible)"
      unfolding idx takeWhile_map comp_def nat_int by (metis takeWhile_eq_take take_map)
    show ?thesis
    proof (cases "idx > 0")
      case pos: True
      then have scan_eq: "scan =
          (case find (\<lambda>x. x \<notin> set sel) (rev (takeWhile (\<lambda>x. x \<noteq> focus) (map node_id visible))) of
             Some x \<Rightarrow> (x, True) | None \<Rightarrow> (node_id (root st), False))"
        by (simp add: scan_def scanBack_find [OF le] tk)
      have hd: "node_id (visible ! 0) = hd (map node_id visible)" "length visible > 0"
        using vis by simp_all
      show ?thesis unfolding scan_eq hd spec_safeId_def using True hd(2)
        by (simp split: option.splits)
    next
      case False
      with idx have "takeWhile (\<lambda>x. node_id x \<noteq> focus) visible = []" by simp
      then have "takeWhile (\<lambda>x. x \<noteq> focus) (map node_id visible) = []"
        by (simp add: takeWhile_map comp_def)
      with False True vis show ?thesis by (simp add: scan_def spec_safeId_def)
    qed
  qed
  show ?thesis unfolding code safe by (simp add: Let_def visible_def sel_def focus_def)
qed

theorem handleDeleteKey_transition_witness:
  "selectedIds \<lparr>root = example_tree, selectedIds = [js ''child-2''], lastFocusedId = js ''child-2''\<rparr> \<noteq> [] \<and>
   node_id (root \<lparr>root = example_tree, selectedIds = [js ''child-2''], lastFocusedId = js ''child-2''\<rparr>)
     \<notin> set (selectedIds \<lparr>root = example_tree, selectedIds = [js ''child-2''], lastFocusedId = js ''child-2''\<rparr>) \<and>
   handleDeleteKey \<lparr>root = example_tree, selectedIds = [js ''child-2''], lastFocusedId = js ''child-2''\<rparr> =
     \<lparr>root = MindMapNode (js ''root'') (js ''Root'') [child1] (Some True),
      selectedIds = [js ''grandchild-1''], lastFocusedId = js ''grandchild-1''\<rparr>"
proof -
  let ?st = "\<lparr>root = example_tree, selectedIds = [js ''child-2''], lastFocusedId = js ''child-2''\<rparr>"
  have h1: "selectedIds ?st \<noteq> []" by simp
  have h2: "node_id (root ?st) \<notin> set (selectedIds ?st)"
    by (simp add: example_tree_def js_def)
  have "handleDeleteKey ?st =
     \<lparr>root = MindMapNode (js ''root'') (js ''Root'') [child1] (Some True),
      selectedIds = [js ''grandchild-1''], lastFocusedId = js ''grandchild-1''\<rparr>"
    unfolding handleDeleteKey_transition [OF h1 h2]
    by (simp add: spec_safeId_def removeNodes_def example_tree_def child1_def child2_def
        grandchild1_def js_def Let_def)
  with h1 h2 show ?thesis by blast
qed

section \<open>The mirror cells of the mandala chart\<close>

lemma js_get_set: "js_get (js_set xs i v) j = (if j = i then Some v else js_get xs j)"
  by (auto simp: js_get_def js_set_def nth_append)

lemma cell_text_with_text: "cell_text (with_text c t) = t"
  by (simp add: with_text_def split: option.splits)

lemma text_at_set:
  "text_at (js_set xs i (with_text c t)) j = (if j = i then Some t else text_at xs j)"
  by (simp add: text_at_def js_get_set cell_text_with_text)

text \<open>
  The two writes that keep the mirror: a write to cell \<open>c\<close> of the center grid, for
  \<open>c\<close> other than 4, puts the text in the center cell of surrounding grid \<open>c\<close> too,
  and a write to the center cell of surrounding grid \<open>g\<close> puts the text in cell \<open>g\<close> of
  the center grid too.
\<close>

lemma updateCell_center_sync:
  assumes "updateCell Center gridIndex c newText d = Inr d'" and "c \<noteq> 4"
  shows "c < length (surroundingGrids d') \<and>
         text_at (cells (centerGrid d')) c = Some newText \<and>
         text_at (cells (surroundingGrids d' ! c)) 4 = Some newText"
proof -
  from assms have "c < length (surroundingGrids d)"
    by (auto simp: updateCell_def Let_def split: if_splits)
  with assms show ?thesis
    by (auto simp: updateCell_def text_at_set Let_def)
qed

lemma updateCell_surrounding_sync:
  assumes "updateCell Surrounding g 4 newText d = Inr d'"
  shows "g < length (surroundingGrids d') \<and>
         text_at (cells (surroundingGrids d' ! g)) 4 = Some newText \<and>
         text_at (cells (centerGrid d')) g = Some newText"
proof -
  from assms have "g < length (surroundingGrids d)"
    by (auto simp: updateCell_def Let_def split: if_splits)
  with assms show ?thesis
    by (auto simp: updateCell_def text_at_set Let_def)
qed

text \<open>A mirror that holds before a call holds in the state the call returns.\<close>

lemma updateCell_preserves_mirrored:
  assumes "i \<noteq> 4" and "mirrored i d" and "updateCell gridType gridIndex cellIndex newText d = Inr d'"
  shows "mirrored i d'"
proof -
  from assms(2) obtain t where m: "i < length (surroundingGrids d)"
      "text_at (cells (centerGrid d)) i = Some t"
      "text_at (cells (surroundingGrids d ! i)) 4 = Some t"
    by (auto simp: mirrored_def split: option.splits)
  show ?thesis
  proof (cases gridType)
    case Center
    show ?thesis
    proof (cases "cellIndex = 4")
      case True
      with assms(1,3) m Center show ?thesis
        by (auto simp: updateCell_def mirrored_def text_at_set Let_def)
    next
      case False
      with assms(3) Center have len: "cellIndex < length (surroundingGrids d)"
        by (auto simp: updateCell_def Let_def split: if_splits)
      with assms(1,3) m Center False show ?thesis
        by (auto simp: updateCell_def mirrored_def text_at_set Let_def nth_list_update)
    qed
  next
    case Surrounding
    with assms(3) have len: "gridIndex < length (surroundingGrids d)"
      by (auto simp: updateCell_def Let_def split: if_splits)
    show ?thesis
    proof (cases "cellIndex = 4")
      case True
      with assms(1,3) m Surrounding len show ?thesis
        by (auto simp: updateCell_def mirrored_def text_at_set Let_def nth_list_update)
    next
      case False
      with assms(1,3) m Surrounding len show ?thesis
        by (auto simp: updateCell_def mirrored_def text_at_set Let_def nth_list_update)
    qed
  qed
qed

text \<open>
  Claim C10 (mirror sync). Let \<open>updateCell\<close> return a state. For a grid index \<open>i\<close> other
  than 4, if cell \<open>i\<close> of the center grid and the center cell of surrounding grid \<open>i\<close>
  carry the same text before the call, they carry the same text in the returned state.
  A write to cell \<open>c\<close> of the center grid, for \<open>c\<close> other than 4, leaves the new text
  both in that cell and in the center cell of surrounding grid \<open>c\<close>; a write to the
  center cell of surrounding grid \<open>g\<close> leaves the new text both in that cell and in cell
  \<open>g\<close> of the center grid. In both cases the two cells are mirrored afterwards.
\<close>

theorem updateCell_keeps_mirror:
  assumes "updateCell gridType gridIndex cellIndex newText d = Inr d'"
  shows "(i \<noteq> 4 \<and> mirrored i d \<longrightarrow> mirrored i d') \<and>
     (gridType = Center \<and> cellIndex \<noteq> 4 \<longrightarrow>
        text_at (cells (centerGrid d')) cellIndex = Some newText \<and>
        text_at (cells (surroundingGrids d' ! cellIndex)) 4 = Some newText \<and>
        mirrored cellIndex d') \<and>
     (gridType = Surrounding \<and> cellIndex = 4 \<longrightarrow>
        text_at (cells (surroundingGrids d' ! gridIndex)) 4 = Some newText \<and>
        text_at (cells (centerGrid d')) gridIndex = Some newText \<and>
        mirrored gridIndex d')"
proof (intro conjI impI)
  assume "i \<noteq> 4 \<and> mirrored i d"
  then show "mirrored i d'"
    using updateCell_preserves_mirrored [OF _ _ assms] by blast
next
  assume a: "gridType = Center \<and> cellIndex \<noteq> 4"
  with assms have "updateCell Center gridIndex cellIndex newText d = Inr d'" by simp
  from updateCell_center_sync [OF this] a
  have s: "cellIndex < length (surroundingGrids d')"
      "text_at (cells (centerGrid d')) cellIndex = Some newText"
      "text_at (cells (surroundingGrids d' ! cellIndex)) 4 = Some newText"
    by simp_all
  show "text_at (cells (centerGrid d')) cellIndex = Some newText" by (rule s(2))
  show "text_at (cells (surroundingGrids d' ! cellIndex)) 4 = Some newText" by (rule s(3))
  show "mirrored cellIndex d'" using s by (simp add: mirrored_def)
next
  assume a: "gridType = Surrounding \<and> cellIndex = 4"
  with assms have "updateCell Surrounding gridIndex 4 newText d = Inr d'" by simp
  from updateCell_surrounding_sync [OF this]
  have s: "gridIndex < length (surroundingGrids d')"
      "text_at (cells (surroundingGrids d' ! gridIndex)) 4 = Some newText"
      "text_at (cells (centerGrid d')) gridIndex = Some newText"
    by simp_all
  show "text_at (cells (surroundingGrids d' ! gridIndex)) 4 = Some newText" by (rule s(2))
  show "text_at (cells (centerGrid d')) gridIndex = Some newText" by (rule s(3))
  show "mirrored gridIndex d'" using s by (simp add: mirrored_def)
qed

theorem updateCell_keeps_mirror_witness:
  "mirrored 3 initial_data \<and> mirrored 5 initial_data \<and>
   (\<exists>d'. updateCell Center 0 3 (js ''goal'') initial_data = Inr d' \<and>
      text_at (cells (centerGrid d')) 3 = Some (js ''goal'') \<and>
      text_at (cells (surroundingGrids d' ! 3)) 4 = Some (js ''goal'') \<and>
      mirrored 3 d' \<and> mirrored 5 d') \<and>
   (\<exists>d'. updateCell Surrounding 5 4 (js ''back'') initial_data = Inr d' \<and>
      text_at (cells (surroundingGrids d' ! 5)) 4 = Some (js ''back'') \<and>
      text_at (cells (centerGrid d')) 5 = Some (js ''back'') \<and>
      mirrored 5 d' \<and> mirrored 3 d')"
proof -
  have m3: "mirrored 3 initial_data"
    by (simp add: mirrored_def initial_data_def createEmptyGrid_def text_at_def js_get_def upt_rec)
  have m5: "mirrored 5 initial_data"
    by (simp add: mirrored_def initial_data_def createEmptyGrid_def text_at_def js_get_def upt_rec)
  obtain d1 where c: "updateCell Center 0 3 (js ''goal'') initial_data = Inr d1"
    by (simp add: updateCell_def initial_data_def Let_def)
  obtain d2 where s: "updateCell Surrounding 5 4 (js ''back'') initial_data = Inr d2"
    by (simp add: updateCell_def initial_data_def Let_def)
  have c3: "text_at (cells (centerGrid d1)) 3 = Some (js ''goal'') \<and>
      text_at (cells (surroundingGrids d1 ! 3)) 4 = Some (js ''goal'') \<and> mirrored 3 d1"
    using updateCell_keeps_mirror [OF c, of 3] by simp
  have c5: "mirrored 5 d1"
    using updateCell_keeps_mirror [OF c, of 5] m5 by simp
  have s5: "text_at (cells (surroundingGrids d2 ! 5)) 4 = Some (js ''back'') \<and>
      text_at (cells (centerGrid d2)) 5 = Some (js ''back'') \<and> mirrored 5 d2"
    using updateCell_keeps_mirror [OF s, of 5] by simp
  have s3: "mirrored 3 d2"
    using updateCell_keeps_mirror [OF s, of 3] m3 by simp
  from m3 m5 c c3 c5 s s5 s3 show ?thesis by blast
qed


section \<open>The parser loop and the exported lines\<close>

subsection \<open>Layout of trees and frames in the heap\<close>

lemma length_enc:
  "length (enc_tree uuid a T) = osize T"
  "length (enc_forest uuid a ks) = sum_list (map osize ks)"
  by (induction uuid a T and uuid a ks rule: enc_tree_enc_forest.induct) simp_all

lemma length_frames_heap: "length (frames_heap uuid fs nx) = frames_size fs"
  by (induction uuid fs nx rule: frames_heap.induct) (simp_all add: length_enc)

lemma kid_addrs_append:
  "kid_addrs a (ks @ ks') = kid_addrs a ks @ kid_addrs (a + sum_list (map osize ks)) ks'"
  by (induction ks arbitrary: a) (simp_all add: add.assoc)

lemma enc_forest_append:
  "enc_forest uuid a (ks @ ks') = enc_forest uuid a ks @ enc_forest uuid (a + sum_list (map osize ks)) ks'"
  by (induction ks arbitrary: a) (simp_all add: add.assoc)

lemma frames_close_one:
  "frames_heap uuid ((d, t, ks) # (d', t', ks') # fs) [] =
   frames_heap uuid ((d', t', ks' @ [Outline t ks]) # fs) []"
  by (simp add: kid_addrs_append enc_forest_append)

lemma frames_stack_close_one:
  "frames_stack ((d', t', ks' @ [Outline t ks]) # fs) = frames_stack ((d', t', ks') # fs)"
  by simp

lemma frames_size_close_one:
  "frames_size ((d', t', ks' @ [Outline t ks]) # fs) = frames_size ((d, t, ks) # (d', t', ks') # fs)"
  by simp

lemma close_frames_sim:
  "rooted depth fs \<Longrightarrow>
     frames_heap uuid (close_frames depth fs) [] = frames_heap uuid fs [] \<and>
     frames_stack (close_frames depth fs) = pop_stack depth (frames_stack fs) \<and>
     frames_size (close_frames depth fs) = frames_size fs \<and>
     rooted depth (close_frames depth fs) \<and>
     fst (last (close_frames depth fs)) = fst (last fs)"
proof (induction depth fs rule: close_frames.induct)
  case (1 depth)
  then show ?case by (simp add: rooted_def)
next
  case (2 depth f)
  then show ?case by (cases f) (auto simp: rooted_def)
next
  case (3 depth d t ks d' t' ks' fs)
  show ?case
  proof (cases "d \<ge> depth")
    case True
    have r: "rooted depth ((d', t', ks' @ [Outline t ks]) # fs)"
      using "3.prems" by (auto simp: rooted_def)
    have l: "fst (last ((d', t', ks' @ [Outline t ks]) # fs)) = fst (last ((d, t, ks) # (d', t', ks') # fs))"
      by simp
    from "3.IH" [OF True r] True show ?thesis
      unfolding l frames_close_one [of uuid d t ks d' t' ks' fs]
      by (simp del: frames_heap.simps)
  next
    case False
    with "3.prems" show ?thesis by simp
  qed
qed

lemma close_frames_top:
  "rooted depth fs \<Longrightarrow> \<exists>d t ks fs'. close_frames depth fs = (d, t, ks) # fs' \<and> d < depth"
proof (induction depth fs rule: close_frames.induct)
  case (1 depth)
  then show ?case by (simp add: rooted_def)
next
  case (2 depth f)
  then show ?case by (cases f) (auto simp: rooted_def)
next
  case (3 depth d t ks d' t' ks' fs)
  then show ?case by (auto simp: rooted_def split: if_splits)
qed

lemma frames_push:
  assumes "fs = (d, t, ks) # fs'"
  shows "push_child (frames_heap uuid fs [] @ [Obj (uuid (frames_size fs)) text []])
            (frames_size fs') (frames_size fs)
         = frames_heap uuid ((depth, text, []) # fs) []"
proof -
  have len: "length (frames_heap uuid fs' [frames_size fs']) = frames_size fs'"
    by (rule length_frames_heap)
  show ?thesis unfolding assms push_child_def
    by (simp add: len nth_append list_update_append del: frames_size.simps)
qed

lemma add_line_sim:
  assumes "rooted depth fs"
  shows "add_line uuid (frames_heap uuid fs [], frames_stack fs) (depth, text)
       = (frames_heap uuid (frame_step fs (depth, text)) [], frames_stack (frame_step fs (depth, text)))"
proof -
  from close_frames_top [OF assms] obtain d t ks fs'
    where top: "close_frames depth fs = (d, t, ks) # fs'" by blast
  from close_frames_sim [OF assms, of uuid]
  have h: "frames_heap uuid (close_frames depth fs) [] = frames_heap uuid fs []"
    and s: "frames_stack (close_frames depth fs) = pop_stack depth (frames_stack fs)"
    and z: "frames_size (close_frames depth fs) = frames_size fs"
    by simp_all
  have len: "length (frames_heap uuid fs []) = frames_size (close_frames depth fs)"
    by (simp add: length_frames_heap z)
  have stack: "pop_stack depth (frames_stack fs) = (frames_size fs', d) # frames_stack fs'"
    using s top by simp
  have "push_child (frames_heap uuid (close_frames depth fs) []
           @ [Obj (uuid (frames_size (close_frames depth fs))) text []])
            (frames_size fs') (frames_size (close_frames depth fs))
         = frames_heap uuid ((depth, text, []) # close_frames depth fs) []"
    by (rule frames_push [OF top])
  then show ?thesis
    unfolding add_line_def frame_step_def
    by (simp add: Let_def len stack h del: frames_heap.simps frames_size.simps)
       (simp add: top)
qed

lemma rooted_frame_step:
  "rooted depth fs \<Longrightarrow> fst (last fs) < depth' \<Longrightarrow> rooted depth' (frame_step fs (depth, text))"
  using close_frames_sim [of depth fs]
  by (auto simp: rooted_def frame_step_def)

lemma last_frame_step:
  "rooted depth fs \<Longrightarrow> fst (last (frame_step fs (depth, text))) = fst (last fs)"
  using close_frames_sim [of depth fs]
  by (auto simp: rooted_def frame_step_def)

lemma foldl_add_line_sim:
  "fs \<noteq> [] \<Longrightarrow> \<forall>p \<in> set lines. fst (last fs) < fst p \<Longrightarrow>
   foldl (add_line uuid) (frames_heap uuid fs [], frames_stack fs) lines
     = (frames_heap uuid (foldl frame_step fs lines) [], frames_stack (foldl frame_step fs lines))
   \<and> foldl frame_step fs lines \<noteq> []
   \<and> fst (last (foldl frame_step fs lines)) = fst (last fs)"
proof (induction lines arbitrary: fs)
  case Nil
  then show ?case by simp
next
  case (Cons p lines)
  obtain depth tx where p: "p = (depth, tx)" by (cases p)
  from Cons.prems p have r: "rooted depth fs" by (simp add: rooted_def)
  have l: "fst (last (frame_step fs (depth, tx))) = fst (last fs)"
    by (rule last_frame_step [OF r])
  have ne: "frame_step fs (depth, tx) \<noteq> []" by (simp add: frame_step_def)
  from Cons.prems l have "\<forall>q \<in> set lines. fst (last (frame_step fs (depth, tx))) < fst q" by simp
  from Cons.IH [OF ne this] show ?case
    unfolding p by (simp add: add_line_sim [OF r] l)
qed

subsection \<open>Reading the result\<close>

lemma collapse_heap:
  "fs \<noteq> [] \<Longrightarrow> frames_heap uuid fs [] = enc_tree uuid 0 (collapse fs)"
proof (induction fs rule: collapse.induct)
  case 1
  then show ?case by simp
next
  case (2 d t ks)
  then show ?case by simp
next
  case (3 d t ks d' t' ks' fs)
  then show ?case
    unfolding frames_close_one [of uuid d t ks d' t' ks' fs] by simp
qed

lemma read_enc:
  "h = pre @ enc_tree uuid a T @ post \<Longrightarrow> length pre = a \<Longrightarrow> osize T \<le> fuel \<Longrightarrow>
     read_node fuel h a = Some (mk_tree uuid a T)"
  "h = pre @ enc_forest uuid a ks @ post \<Longrightarrow> length pre = a \<Longrightarrow> sum_list (map osize ks) \<le> fuel \<Longrightarrow>
     those (map (read_node fuel h) (kid_addrs a ks)) = Some (mk_forest uuid a ks)"
proof (induction uuid a T and uuid a ks arbitrary: fuel pre post and fuel pre post rule: enc_tree_enc_forest.induct)
  case (1 uuid a t ks)
  from "1.prems"(3) obtain n where fuel: "fuel = Suc n" and n: "sum_list (map osize ks) \<le> n"
    by (cases fuel) auto
  have h': "h = (pre @ [Obj (uuid a) t (kid_addrs (Suc a) ks)]) @ enc_forest uuid (Suc a) ks @ post"
    using "1.prems"(1) by simp
  have len: "length (pre @ [Obj (uuid a) t (kid_addrs (Suc a) ks)]) = Suc a"
    using "1.prems"(2) by simp
  have kids: "those (map (read_node n h) (kid_addrs (Suc a) ks)) = Some (mk_forest uuid (Suc a) ks)"
    by (rule "1.IH" [OF h' len n])
  have at: "h ! a = Obj (uuid a) t (kid_addrs (Suc a) ks)" and lt: "a < length h"
    using "1.prems"(1,2) by (simp_all add: nth_append)
  show ?case unfolding fuel by (simp add: at lt kids)
next
  case (2 uuid a)
  then show ?case by simp
next
  case (3 uuid a k ks)
  have h1: "h = pre @ enc_tree uuid a k @ (enc_forest uuid (a + osize k) ks @ post)"
    using "3.prems"(1) by simp
  have f1: "osize k \<le> fuel" using "3.prems"(3) by simp
  have first: "read_node fuel h a = Some (mk_tree uuid a k)"
    by (rule "3.IH"(1) [OF h1 "3.prems"(2) f1])
  have h2: "h = (pre @ enc_tree uuid a k) @ enc_forest uuid (a + osize k) ks @ post"
    using "3.prems"(1) by simp
  have len: "length (pre @ enc_tree uuid a k) = a + osize k"
    using "3.prems"(2) by (simp add: length_enc)
  have f2: "sum_list (map osize ks) \<le> fuel" using "3.prems"(3) by simp
  have rest: "those (map (read_node fuel h) (kid_addrs (a + osize k) ks)) = Some (mk_forest uuid (a + osize k) ks)"
    by (rule "3.IH"(2) [OF h2 len f2])
  show ?case by (simp add: first rest)
qed

lemma read_collapsed:
  "fs \<noteq> [] \<Longrightarrow>
   read_node (length (frames_heap uuid fs [])) (frames_heap uuid fs []) 0
     = Some (mk_tree uuid 0 (collapse fs))"
proof -
  assume ne: "fs \<noteq> []"
  have h: "frames_heap uuid fs [] = [] @ enc_tree uuid 0 (collapse fs) @ []"
    using collapse_heap [OF ne] by simp
  have "osize (collapse fs) \<le> length (frames_heap uuid fs [])"
    using collapse_heap [OF ne, of uuid] by (simp add: length_enc)
  from read_enc(1) [OF h _ this] show ?thesis by simp
qed

subsection \<open>The tree read from the heap\<close>

lemma shape_mk:
  "shape (mk_tree uuid a T) = T"
  "map shape (mk_forest uuid a ks) = ks"
  by (induction uuid a T and uuid a ks rule: mk_tree_mk_forest.induct) simp_all

lemma texts_mk:
  "texts (mk_tree uuid a T) = otexts T"
  "concat (map texts (mk_forest uuid a ks)) = concat (map otexts ks)"
  by (induction uuid a T and uuid a ks rule: mk_tree_mk_forest.induct) simp_all

lemma upt_split: "map f [a..<a + m + n] = map f [a..<a + m] @ map f [a + m..<a + m + n]"
  by (metis le_add1 map_append upt_add_eq_append)

lemma ids_mk:
  "ids (mk_tree uuid a T) = map uuid [a..<a + osize T]"
  "concat (map ids (mk_forest uuid a ks)) = map uuid [a..<a + sum_list (map osize ks)]"
proof (induction uuid a T and uuid a ks rule: mk_tree_mk_forest.induct)
  case (1 uuid a t ks)
  have "[a..<a + Suc (sum_list (map osize ks))] = a # [Suc a..<Suc a + sum_list (map osize ks)]"
    by (subst upt_conv_Cons) simp_all
  with 1 show ?case by simp
next
  case (2 uuid a)
  then show ?case by simp
next
  case (3 uuid a k ks)
  then show ?case using upt_split [of uuid a "osize k" "sum_list (map osize ks)"]
    by (simp add: add.assoc)
qed

lemma mk_tree_root:
  "node_id (mk_tree uuid a T) = uuid a" "node_text (mk_tree uuid a T) = otext T"
  "children (mk_tree uuid a T) = mk_forest uuid (Suc a) (okids T)"
  by (cases T; simp)+

subsection \<open>Frames: texts\<close>

lemma texts_close_frames: "frames_texts (close_frames depth fs) = frames_texts fs"
  by (induction depth fs rule: close_frames.induct) simp_all

lemma size_close_frames: "frames_size (close_frames depth fs) = frames_size fs"
  by (induction depth fs rule: close_frames.induct) simp_all

lemma texts_foldl_frame_step:
  "frames_texts (foldl frame_step fs lines) = frames_texts fs @ map snd lines"
  by (induction lines arbitrary: fs) (simp_all add: frame_step_def texts_close_frames)

lemma size_foldl_frame_step:
  "frames_size (foldl frame_step fs lines) = frames_size fs + length lines"
  by (induction lines arbitrary: fs) (simp_all add: frame_step_def size_close_frames)

lemma texts_collapse: "fs \<noteq> [] \<Longrightarrow> otexts (collapse fs) = frames_texts fs"
  by (induction fs rule: collapse.induct) simp_all

lemma size_collapse: "fs \<noteq> [] \<Longrightarrow> osize (collapse fs) = frames_size fs"
  by (induction fs rule: collapse.induct) simp_all

lemma otext_collapse: "fs \<noteq> [] \<Longrightarrow> otext (collapse fs) = fst (snd (last fs))"
  by (induction fs rule: collapse.induct) simp_all

lemma root_text_close_frames: "fst (snd (last (close_frames depth fs))) = fst (snd (last fs))"
  by (induction depth fs rule: close_frames.induct) simp_all

lemma close_frames_nonempty: "fs \<noteq> [] \<Longrightarrow> close_frames depth fs \<noteq> []"
  by (induction depth fs rule: close_frames.induct) simp_all

lemma root_text_foldl_frame_step:
  "fs \<noteq> [] \<Longrightarrow> fst (snd (last (foldl frame_step fs lines))) = fst (snd (last fs))"
proof (induction lines arbitrary: fs)
  case Nil
  then show ?case by simp
next
  case (Cons p lines)
  have "frame_step fs p \<noteq> []" by (simp add: frame_step_def)
  from Cons.IH [OF this] Cons.prems show ?case
    by (simp add: frame_step_def close_frames_nonempty root_text_close_frames)
qed

subsection \<open>Frames: the lines of a tree\<close>

lemma close_frames_mono:
  "d \<le> d' \<Longrightarrow> close_frames d (close_frames d' fs) = close_frames d fs"
  by (induction d' fs rule: close_frames.induct) auto

lemma close_frames_id:
  "d0 < d \<Longrightarrow> close_frames d ((d0, t, ks) # fs) = (d0, t, ks) # fs"
  by (cases fs) auto

lemma collapse_close_frames: "collapse (close_frames d fs) = collapse fs"
  by (induction d fs rule: close_frames.induct) simp_all

lemma flat_depths:
  "\<forall>p \<in> set (flat d T). d \<le> fst p"
  "\<forall>p \<in> set (flats d ks). d \<le> fst p"
  by (induction d T and d ks rule: flat_flats.induct) auto

lemma rooted_foldl:
  assumes "rooted d fs" and "\<forall>p \<in> set lines. d \<le> fst p"
  shows "rooted d (foldl frame_step fs lines)"
proof -
  from assms have ne: "fs \<noteq> []" and "\<forall>p \<in> set lines. fst (last fs) < fst p"
    by (auto simp: rooted_def)
  from foldl_add_line_sim [OF this, of undefined] assms(1) show ?thesis
    by (simp add: rooted_def)
qed

lemma frames_of_flat:
  "rooted d fs \<Longrightarrow>
     close_frames d (foldl frame_step fs (flat d T)) = add_kids [T] (close_frames d fs)"
  "rooted d fs \<Longrightarrow>
     close_frames d (foldl frame_step fs (flats d ks)) = add_kids ks (close_frames d fs)"
proof (induction d T and d ks arbitrary: fs and fs rule: flat_flats.induct)
  case (1 d t ks)
  from close_frames_top [OF "1.prems"] obtain d0 t0 ks0 G
    where G: "close_frames d fs = (d0, t0, ks0) # G" and d0: "d0 < d" by blast
  let ?fs1 = "(d, t, []) # close_frames d fs"
  let ?X = "foldl frame_step ?fs1 (flats (d + 1) ks)"
  have "fst (last (close_frames d fs)) = fst (last fs)"
    using close_frames_sim [OF "1.prems"] by simp
  then have r1: "rooted (d + 1) ?fs1"
    using "1.prems" G by (simp add: rooted_def)
  have "close_frames (d + 1) ?X = add_kids ks (close_frames (d + 1) ?fs1)"
    by (rule "1.IH" [OF r1])
  also have "\<dots> = (d, t, ks) # (d0, t0, ks0) # G"
    by (simp add: close_frames_id G)
  finally have X: "close_frames (d + 1) ?X = (d, t, ks) # (d0, t0, ks0) # G" .
  have "close_frames d ?X = close_frames d (close_frames (d + 1) ?X)"
    by (simp add: close_frames_mono)
  also have "\<dots> = (d0, t0, ks0 @ [Outline t ks]) # G"
    unfolding X using d0 by (simp add: close_frames_id)
  finally show ?case by (simp add: frame_step_def [of fs] G)
next
  case (2 d)
  from close_frames_top [OF "2.prems"] show ?case by auto
next
  case (3 d k ks)
  let ?fs' = "foldl frame_step fs (flat d k)"
  have r': "rooted d ?fs'"
    by (rule rooted_foldl [OF "3.prems" flat_depths(1)])
  from close_frames_top [OF "3.prems"] obtain d0 t0 ks0 G
    where G: "close_frames d fs = (d0, t0, ks0) # G" by blast
  have "close_frames d (foldl frame_step ?fs' (flats d ks)) = add_kids ks (close_frames d ?fs')"
    by (rule "3.IH"(2) [OF r'])
  also have "close_frames d ?fs' = add_kids [k] (close_frames d fs)"
    by (rule "3.IH"(1) [OF "3.prems"])
  finally show ?case by (simp add: G)
qed

lemma collapse_of_flats:
  "collapse (foldl frame_step [(- 1, t, [])] (flats 1 ks)) = Outline t ks"
proof -
  have r: "rooted 1 [(- 1, t, [])]" by (simp add: rooted_def)
  have "collapse (foldl frame_step [(- 1, t, [])] (flats 1 ks))
      = collapse (close_frames 1 (foldl frame_step [(- 1, t, [])] (flats 1 ks)))"
    by (simp add: collapse_close_frames)
  also have "\<dots> = collapse (add_kids ks (close_frames 1 [(- 1, t, [])]))"
    by (simp only: frames_of_flat(2) [OF r])
  finally show ?thesis by simp
qed

subsection \<open>The parser in terms of frames\<close>

lemma parse_line_depth: "0 \<le> fst (parse_line l)"
  by (simp add: parse_line_def Let_def)

lemma parse_frames:
  assumes "nonblank_lines text \<noteq> []"
  shows "parseMindMap uuid text =
     Some (mk_tree uuid 0 (collapse
       (if fst (hd (parsedLines text)) = 0
        then foldl frame_step [(- 1, snd (hd (parsedLines text)), [])] (tl (parsedLines text))
        else foldl frame_step [(- 1, js ''Root'', [])] (parsedLines text))))"
proof -
  have run: "foldl (add_line uuid) ([Obj (uuid 0) rt []], [(0, - 1)]) lines
      = (frames_heap uuid (foldl frame_step [(- 1, rt, [])] lines) [],
         frames_stack (foldl frame_step [(- 1, rt, [])] lines))
      \<and> foldl frame_step [(- 1, rt, [])] lines \<noteq> []"
    if "set lines \<subseteq> set (parsedLines text)" for rt lines
  proof -
    have "\<forall>p \<in> set lines. fst (last [(- 1 :: int, rt, [] :: outline list)]) < fst p"
    proof
      fix p assume "p \<in> set lines"
      with that obtain l where "p = parse_line l" by (auto simp: parsedLines_def)
      with parse_line_depth [of l] show "fst (last [(- 1 :: int, rt, [] :: outline list)]) < fst p"
        by simp
    qed
    from foldl_add_line_sim [OF _ this, of uuid] show ?thesis by simp
  qed
  have sub: "set (tl (parsedLines text)) \<subseteq> set (parsedLines text)"
    by (cases "parsedLines text") auto
  show ?thesis
  proof (cases "fst (hd (parsedLines text)) = 0")
    case True
    from run [OF sub] read_collapsed [of _ uuid] True assms show ?thesis
      by (simp add: parseMindMap_def Let_def parsedLines_def [symmetric] root_is_first_line_def drop_Suc)
  next
    case False
    from run [OF subset_refl] read_collapsed [of _ uuid] False assms show ?thesis
      by (simp add: parseMindMap_def Let_def parsedLines_def [symmetric] root_is_first_line_def)
  qed
qed

subsection \<open>Lines of text\<close>

lemma split_nl_nonempty: "split_nl s \<noteq> []"
  by (induction s) (auto split: list.splits)

lemma split_nl_single: "10 \<notin> set s \<Longrightarrow> split_nl s = [s]"
  by (induction s) auto

lemma split_nl_append: "split_nl (a @ 10 # b) = split_nl a @ split_nl b"
proof (induction a)
  case Nil
  then show ?case by simp
next
  case (Cons c a)
  obtain l ls where "split_nl a = l # ls"
    using split_nl_nonempty [of a] by (cases "split_nl a") auto
  with Cons show ?case by simp
qed

lemma split_nl_join:
  "xs \<noteq> [] \<Longrightarrow> split_nl (join_nl xs) = concat (map split_nl xs)"
proof (induction xs rule: join_nl.induct)
  case 1
  then show ?case by simp
next
  case (2 x)
  then show ?case by simp
next
  case (3 x y zs)
  then show ?case by (simp add: split_nl_append)
qed

lemma join_nl_empty_iff:
  "\<forall>x \<in> set xs. x \<noteq> [] \<Longrightarrow> join_nl xs = [] \<longleftrightarrow> xs = []"
  by (induction xs rule: join_nl.induct) auto

lemma trim_empty_iff: "trim s = [] \<longleftrightarrow> (\<forall>c \<in> set s. is_space c)"
proof -
  have "trim s = [] \<longleftrightarrow> (\<forall>c \<in> set (dropWhile is_space s). is_space c)"
    by (simp add: trim_def dropWhile_eq_Nil_conv)
  also have "\<dots> \<longleftrightarrow> dropWhile is_space s = []"
  proof
    assume a: "\<forall>c \<in> set (dropWhile is_space s). is_space c"
    show "dropWhile is_space s = []"
    proof (rule ccontr)
      assume "dropWhile is_space s \<noteq> []"
      then have "\<not> is_space (hd (dropWhile is_space s))" by (rule hd_dropWhile)
      moreover have "hd (dropWhile is_space s) \<in> set (dropWhile is_space s)"
        using \<open>dropWhile is_space s \<noteq> []\<close> by simp
      ultimately show False using a by blast
    qed
  qed (auto dest: set_dropWhileD)
  also have "\<dots> \<longleftrightarrow> (\<forall>c \<in> set s. is_space c)"
    by (simp add: dropWhile_eq_Nil_conv)
  finally show ?thesis .
qed

subsection \<open>The lines of an exported tree\<close>

lemma js_two_spaces: "js ''  '' = [0x20, 0x20]" and js_bullet: "js ''- '' = [0x2D, 0x20]"
  by (simp_all add: js_def)

lemma indent_spaces: "concat (replicate n (js ''  '')) = replicate (2 * n) 0x20"
  by (induction n) (simp_all add: js_two_spaces)

lemma render_eq: "0 \<le> d \<Longrightarrow> render (d, t) = replicate (2 * nat d) 0x20 @ 0x2D # 0x20 # t"
  by (simp add: render_def indent_spaces js_bullet)

lemma export_nonempty: "exportMindMap T n \<noteq> []"
  by (cases T) (simp add: Let_def js_bullet)

lemma flats_concat: "flats d ks = concat (map (flat d) ks)"
  by (induction ks) simp_all

lemma export_lines:
  "\<forall>t \<in> set (texts T). 10 \<notin> set t \<Longrightarrow>
   split_nl (exportMindMap T n) = map render (flat (int n) (shape T))"
proof (induction T n rule: exportMindMap.induct)
  case (1 i t cs e depth)
  let ?line = "concat (replicate depth (js ''  '')) @ js ''- '' @ t"
  let ?kids = "map (\<lambda>child. exportMindMap child (depth + 1)) cs"
  have t: "10 \<notin> set t" using "1.prems" by simp
  have line: "split_nl ?line = [?line]"
    by (rule split_nl_single) (simp add: indent_spaces js_bullet t)
  have r: "?line = render (int depth, t)" by (simp add: render_def)
  have line': "split_nl (render (int depth, t)) = [render (int depth, t)]"
    using line unfolding r .
  have kid: "split_nl (exportMindMap c (depth + 1)) = map render (flat (int depth + 1) (shape c))"
    if "c \<in> set cs" for c
  proof -
    have "\<forall>t \<in> set (texts c). 10 \<notin> set t" using "1.prems" that by auto
    from "1.IH" [OF refl refl that this] show ?thesis by (simp add: add.commute)
  qed
  show ?case
  proof (cases "cs = []")
    case True
    then show ?thesis using line' r by (simp add: Let_def)
  next
    case False
    then have ne: "?kids \<noteq> []" by simp
    have "\<forall>x \<in> set ?kids. x \<noteq> []" by (auto simp: export_nonempty)
    from join_nl_empty_iff [OF this] ne have j: "join_nl ?kids \<noteq> []" by simp
    have "split_nl (join_nl ?kids) = concat (map split_nl ?kids)"
      by (rule split_nl_join [OF ne])
    also have "\<dots> = concat (map (\<lambda>c. map render (flat (int depth + 1) (shape c))) cs)"
      using kid by (simp add: comp_def cong: map_cong)
    also have "\<dots> = map render (flats (int depth + 1) (map shape cs))"
      by (simp add: flats_concat map_concat comp_def)
    finally have kids: "split_nl (join_nl ?kids) = map render (flats (int depth + 1) (map shape cs))" .
    have E: "exportMindMap (MindMapNode i t cs e) depth = ?line @ 10 # join_nl ?kids"
      using j by (simp add: Let_def)
    show ?thesis
      by (subst E, unfold r split_nl_append line' kids) simp
  qed
qed

lemma not_space_dash: "\<not> is_space 0x2D"
  by (simp add: is_space_def)

lemma space_space: "is_space 0x20"
  by (simp add: is_space_def)

lemma render_nonblank: "0 \<le> d \<Longrightarrow> trim (render (d, t)) \<noteq> []"
  using not_space_dash by (auto simp: trim_empty_iff render_eq)

lemma dropWhile_plain: "t = [] \<or> \<not> is_space (hd t) \<Longrightarrow> dropWhile is_space t = t"
  by (cases t) auto

lemma takeWhile_all: "\<forall>c \<in> set t. P c \<Longrightarrow> takeWhile P t = t"
  by (induction t) auto

lemma takeWhile_replicate_app:
  "P x \<Longrightarrow> \<not> P y \<Longrightarrow> takeWhile P (replicate n x @ y # ys) = replicate n x"
  by (induction n) simp_all

lemma dropWhile_replicate_app:
  "P x \<Longrightarrow> \<not> P y \<Longrightarrow> dropWhile P (replicate n x @ y # ys) = y # ys"
  by (induction n) simp_all

lemma parse_line_render:
  assumes "0 \<le> d" and "plain_text t"
  shows "parse_line (render (d, t)) = (d, t)"
proof -
  let ?ind = "replicate (2 * nat d) (0x20 :: jschar)"
  have tw: "takeWhile is_space (?ind @ 0x2D # 0x20 # t) = ?ind"
    by (rule takeWhile_replicate_app [of is_space, OF space_space not_space_dash])
  have dw: "dropWhile is_space (?ind @ 0x2D # 0x20 # t) = 0x2D # 0x20 # t"
    by (rule dropWhile_replicate_app [of is_space, OF space_space not_space_dash])
  have sb: "strip_bullet (0x2D # 0x20 # t) = t"
    using assms(2) space_space by (simp add: strip_bullet_def plain_text_def dropWhile_plain)
  have ct: "takeWhile (\<lambda>c. \<not> is_line_terminator c) t = t"
    using assms(2) by (simp add: plain_text_def takeWhile_all)
  have rp: "concat (map (\<lambda>c. if c = 0x09 then js ''  '' else [c]) ?ind) = ?ind"
    by (induction "2 * nat d" arbitrary: d) (simp_all add: map_replicate_const)
  show ?thesis
    unfolding render_eq [OF assms(1)] parse_line_def Let_def tw dw sb ct rp
    using assms(1) by simp
qed

lemma flat_texts:
  "snd ` set (flat d T) = set (otexts T)"
  "snd ` set (flats d ks) = set (concat (map otexts ks))"
  by (induction d T and d ks rule: flat_flats.induct) (simp_all add: image_Un)

lemma otexts_shape: "otexts (shape T) = texts T"
  by (induction T) (simp add: comp_def cong: map_cong)

lemma exported_parsedLines:
  assumes "\<forall>t \<in> set (texts T). plain_text t"
  shows "nonblank_lines (exportMindMap T 0) = map render (flat 0 (shape T))"
    and "parsedLines (exportMindMap T 0) = flat 0 (shape T)"
proof -
  have nl: "\<forall>t \<in> set (texts T). 10 \<notin> set t"
    using assms by (auto simp: plain_text_def is_line_terminator_def)
  have lines: "split_nl (exportMindMap T 0) = map render (flat 0 (shape T))"
    using export_lines [OF nl, of 0] by simp
  have ok: "0 \<le> fst p \<and> plain_text (snd p)" if "p \<in> set (flat 0 (shape T))" for p
  proof -
    have "snd p \<in> set (otexts (shape T))" using that flat_texts(1) [of 0 "shape T"] by auto
    with assms flat_depths(1) [of 0 "shape T"] that show ?thesis by (simp add: otexts_shape)
  qed
  have keep: "trim (render p) \<noteq> []" if "p \<in> set (flat 0 (shape T))" for p
    using render_nonblank [of "fst p" "snd p"] ok [OF that] by simp
  show 1: "nonblank_lines (exportMindMap T 0) = map render (flat 0 (shape T))"
    unfolding nonblank_lines_def lines using keep by (simp add: filter_map comp_def)
  have "map parse_line (map render (flat 0 (shape T))) = map id (flat 0 (shape T))"
    unfolding map_map
  proof (rule map_cong [OF refl])
    fix p assume "p \<in> set (flat 0 (shape T))"
    from ok [OF this] parse_line_render [of "fst p" "snd p"]
    show "(parse_line \<circ> render) p = id p" by simp
  qed
  then show "parsedLines (exportMindMap T 0) = flat 0 (shape T)"
    unfolding parsedLines_def 1 by simp
qed

text \<open>The parser returns a tree for every text: reading the heap never runs out of fuel.\<close>

lemma parse_total: "\<exists>r. parseMindMap uuid text = Some r"
proof (cases "nonblank_lines text = []")
  case True
  then show ?thesis by (simp add: parseMindMap_def)
next
  case False
  from parse_frames [OF this] show ?thesis by blast
qed

section \<open>Claims about the outline text format\<close>

text \<open>
  Claim C3 (round trip) as stated fails: a node whose text is not empty but starts with
  a space comes back without the space, because the bullet pattern takes all the white
  space after the dash.
\<close>

theorem export_parse_roundtrip_counterexample:
  "node_text padded_tree \<noteq> [] \<and> children padded_tree = [] \<and>
   map_option shape (parseMindMap example_uuid (exportMindMap padded_tree 0))
     \<noteq> Some (shape padded_tree)"
  by (simp add: padded_tree_def parseMindMap_def nonblank_lines_def trim_def is_space_def
      parse_line_def strip_bullet_def is_line_terminator_def js_def root_is_first_line_def Let_def)

text \<open>
  Claim C3, amended. For every tree in which no text starts with white space or contains
  a line terminator, parsing the exported text returns a tree of the same shape: the
  same texts and the same order of children, with the root of the tree as the root of
  the result.
\<close>

theorem export_parse_roundtrip:
  assumes "\<forall>t \<in> set (texts T). plain_text t"
  shows "map_option shape (parseMindMap uuid (exportMindMap T 0)) = Some (shape T)"
proof -
  obtain t ks where S: "shape T = Outline t ks" by (cases "shape T")
  have pl: "parsedLines (exportMindMap T 0) = (0, t) # flats 1 ks"
    using exported_parsedLines(2) [OF assms] S by simp
  have ne: "nonblank_lines (exportMindMap T 0) \<noteq> []"
    using exported_parsedLines(1) [OF assms] S by simp
  show ?thesis
    unfolding parse_frames [OF ne] pl
    by (simp add: collapse_of_flats shape_mk S)
qed

theorem export_parse_roundtrip_witness:
  "texts example_tree = [js ''Root'', js ''Child 1'', js ''Grandchild 1'', js ''Child 2''] \<and>
   plain_text (js ''Root'') \<and> plain_text (js ''Child 1'') \<and>
   plain_text (js ''Grandchild 1'') \<and> plain_text (js ''Child 2'') \<and>
   map_option shape (parseMindMap example_uuid (exportMindMap example_tree 0)) =
     Some (Outline (js ''Root'')
       [Outline (js ''Child 1'') [Outline (js ''Grandchild 1'') []],
        Outline (js ''Child 2'') []])"
proof -
  have t: "texts example_tree = [js ''Root'', js ''Child 1'', js ''Grandchild 1'', js ''Child 2'']"
    by (simp add: example_tree_def child1_def child2_def grandchild1_def)
  have p: "plain_text (js ''Root'')" "plain_text (js ''Child 1'')"
      "plain_text (js ''Grandchild 1'')" "plain_text (js ''Child 2'')"
    by (simp_all add: plain_text_def is_space_def is_line_terminator_def js_def)
  have h: "\<forall>t \<in> set (texts example_tree). plain_text t"
    unfolding t using p by simp
  have "map_option shape (parseMindMap example_uuid (exportMindMap example_tree 0)) =
     Some (Outline (js ''Root'')
       [Outline (js ''Child 1'') [Outline (js ''Grandchild 1'') []],
        Outline (js ''Child 2'') []])"
    using export_parse_roundtrip [OF h, of example_uuid]
    by (simp add: example_tree_def child1_def child2_def grandchild1_def)
  with t p show ?thesis by blast
qed

text \<open>
  Claim C6 (root inference). For a text with a line that is not blank, the parser returns
  a tree. When the first surviving line has depth 0, the root has the text of that
  line, and the nodes of the tree in pre-order are the surviving lines in order, one
  node for each line, so the first line is the root only. Otherwise the root is a new
  node with the text "Root", and the nodes below it in pre-order are the surviving
  lines in order, one node for each line.
\<close>

theorem parse_root_inference:
  assumes "nonblank_lines text \<noteq> []"
  shows "\<exists>r. parseMindMap uuid text = Some r \<and>
     (if fst (hd (parsedLines text)) = 0
      then node_text r = snd (hd (parsedLines text)) \<and>
           texts r = map snd (parsedLines text) \<and>
           ids r = map uuid [0..<length (parsedLines text)]
      else node_id r = uuid 0 \<and> node_text r = js ''Root'' \<and>
           concat (map texts (children r)) = map snd (parsedLines text) \<and>
           concat (map ids (children r)) = map uuid [1..<Suc (length (parsedLines text))])"
proof (cases "fst (hd (parsedLines text)) = 0")
  case True
  from assms obtain p ps where pl: "parsedLines text = p # ps"
    by (cases "parsedLines text") (auto simp: parsedLines_def)
  let ?F = "foldl frame_step [(- 1, snd p, [])] ps"
  have ne: "?F \<noteq> []"
    using size_foldl_frame_step [of "[(- 1, snd p, [])]" ps] by auto
  have r: "parseMindMap uuid text = Some (mk_tree uuid 0 (collapse ?F))"
    using parse_frames [OF assms, of uuid] True pl by simp
  have 1: "node_text (mk_tree uuid 0 (collapse ?F)) = snd p"
    by (simp add: mk_tree_root otext_collapse [OF ne] root_text_foldl_frame_step)
  have 2: "texts (mk_tree uuid 0 (collapse ?F)) = snd p # map snd ps"
    by (simp add: texts_mk texts_collapse [OF ne] texts_foldl_frame_step)
  have 3: "ids (mk_tree uuid 0 (collapse ?F)) = map uuid [0..<Suc (length ps)]"
    by (simp add: ids_mk size_collapse [OF ne] size_foldl_frame_step del: upt_Suc)
  from r 1 2 3 True show ?thesis by (simp add: pl del: upt_Suc)
next
  case False
  let ?F = "foldl frame_step [(- 1, js ''Root'', [])] (parsedLines text)"
  have ne: "?F \<noteq> []"
    using size_foldl_frame_step [of "[(- 1, js ''Root'', [])]" "parsedLines text"] by auto
  have r: "parseMindMap uuid text = Some (mk_tree uuid 0 (collapse ?F))"
    using parse_frames [OF assms, of uuid] False by simp
  obtain t ks where C: "collapse ?F = Outline t ks" by (cases "collapse ?F")
  have "otexts (collapse ?F) = js ''Root'' # map snd (parsedLines text)"
    by (simp add: texts_collapse [OF ne] texts_foldl_frame_step)
  then have t: "t = js ''Root''" and k: "concat (map otexts ks) = map snd (parsedLines text)"
    unfolding C by simp_all
  have "osize (collapse ?F) = Suc (length (parsedLines text))"
    by (simp add: size_collapse [OF ne] size_foldl_frame_step)
  then have z: "sum_list (map osize ks) = length (parsedLines text)"
    unfolding C by simp
  have 3: "concat (map texts (mk_forest uuid (Suc 0) ks)) = map snd (parsedLines text)"
    by (simp add: texts_mk k)
  have 4: "concat (map ids (mk_forest uuid (Suc 0) ks)) = map uuid [1..<Suc (length (parsedLines text))]"
    by (simp add: ids_mk z del: upt_Suc)
  from r False t 3 4 show ?thesis unfolding C by (simp del: upt_Suc)
qed

theorem parse_root_inference_witness:
  "nonblank_lines (js ''a'' @ [10] @ js ''  b'' @ [10] @ js ''c'') \<noteq> [] \<and>
   nonblank_lines (js ''  a'' @ [10] @ js ''b'') \<noteq> [] \<and>
   parseMindMap example_uuid (js ''a'' @ [10] @ js ''  b'' @ [10] @ js ''c'') =
     Some (MindMapNode (js ''id-0'') (js ''a'')
       [MindMapNode (js ''id-1'') (js ''b'') [] None,
        MindMapNode (js ''id-2'') (js ''c'') [] None] None) \<and>
   parseMindMap example_uuid (js ''  a'' @ [10] @ js ''b'') =
     Some (MindMapNode (js ''id-0'') (js ''Root'')
       [MindMapNode (js ''id-1'') (js ''a'') [] None,
        MindMapNode (js ''id-2'') (js ''b'') [] None] None)"
proof -
  have h1: "nonblank_lines (js ''a'' @ [10] @ js ''  b'' @ [10] @ js ''c'') \<noteq> []"
    by (simp add: nonblank_lines_def trim_def is_space_def js_def)
  have h2: "nonblank_lines (js ''  a'' @ [10] @ js ''b'') \<noteq> []"
    by (simp add: nonblank_lines_def trim_def is_space_def js_def)
  have e1: "parseMindMap example_uuid (js ''a'' @ [10] @ js ''  b'' @ [10] @ js ''c'') =
     Some (MindMapNode (js ''id-0'') (js ''a'')
       [MindMapNode (js ''id-1'') (js ''b'') [] None,
        MindMapNode (js ''id-2'') (js ''c'') [] None] None)"
    by (simp add: parseMindMap_def nonblank_lines_def trim_def is_space_def parse_line_def
        strip_bullet_def is_line_terminator_def js_def add_line_def push_child_def
        root_is_first_line_def example_uuid_def digit_def Let_def)
  have e2: "parseMindMap example_uuid (js ''  a'' @ [10] @ js ''b'') =
     Some (MindMapNode (js ''id-0'') (js ''Root'')
       [MindMapNode (js ''id-1'') (js ''a'') [] None,
        MindMapNode (js ''id-2'') (js ''b'') [] None] None)"
    by (simp add: parseMindMap_def nonblank_lines_def trim_def is_space_def parse_line_def
        strip_bullet_def is_line_terminator_def js_def add_line_def push_child_def
        root_is_first_line_def example_uuid_def digit_def Let_def)
  from parse_root_inference [OF h1, of example_uuid] parse_root_inference [OF h2, of example_uuid]
    h1 h2 e1 e2 show ?thesis by blast
qed

text \<open>
  Claim C8 (a line that finds the stack empty is dropped), evaluated on the code. The
  root from a first line of depth 0 is on the stack with depth \<open>-1\<close>, so a second line
  of depth 0 does not pop it: the line becomes a child of the root and is in the
  returned tree.
\<close>

theorem parse_second_top_level_line:
  "parseMindMap uuid (js ''a'' @ [10] @ js ''b'') =
     Some (MindMapNode (uuid 0) (js ''a'') [MindMapNode (uuid 1) (js ''b'') [] None] None)"
  by (simp add: parseMindMap_def nonblank_lines_def trim_def is_space_def parse_line_def
      strip_bullet_def is_line_terminator_def js_def add_line_def push_child_def
      root_is_first_line_def Let_def)

text \<open>
  Claim C9 (blank input). For a text whose lines are all empty or all white space, the
  empty text included, the parser returns the single node with the text "Root" and no
  children.
\<close>

theorem parse_blank_text:
  assumes "\<forall>line \<in> set (split_nl text). \<forall>c \<in> set line. is_space c"
  shows "parseMindMap uuid text = Some (MindMapNode (uuid 0) (js ''Root'') [] None)"
proof -
  have "nonblank_lines text = []"
    using assms by (simp add: nonblank_lines_def trim_empty_iff filter_empty_conv)
  then show ?thesis by (simp add: parseMindMap_def)
qed

theorem parse_blank_text_witness:
  "split_nl [] = [[]] \<and>
   split_nl (js ''  '' @ [10, 9, 10]) = [js ''  '', [9], []] \<and>
   is_space 0x20 \<and> is_space 0x09 \<and>
   parseMindMap example_uuid [] = Some (MindMapNode (js ''id-0'') (js ''Root'') [] None) \<and>
   parseMindMap example_uuid (js ''  '' @ [10, 9, 10]) =
     Some (MindMapNode (js ''id-0'') (js ''Root'') [] None)"
proof -
  have s1: "split_nl [] = [[]]" by simp
  have s2: "split_nl (js ''  '' @ [10, 9, 10]) = [js ''  '', [9], []]"
    by (simp add: js_def)
  have sp: "is_space 0x20" "is_space 0x09" by (simp_all add: is_space_def)
  have h1: "\<forall>line \<in> set (split_nl []). \<forall>c \<in> set line. is_space c" by simp
  have h2: "\<forall>line \<in> set (split_nl (js ''  '' @ [10, 9, 10])). \<forall>c \<in> set line. is_space c"
    unfolding s2 using sp by (simp add: js_def)
  have u: "example_uuid 0 = js ''id-0''" by (simp add: example_uuid_def digit_def js_def)
  from parse_blank_text [OF h1, of example_uuid] parse_blank_text [OF h2, of example_uuid] s1 s2 sp
  show ?thesis unfolding u by blast
qed

end
